theory Spec2Isabelle
  imports Complex_Main "HOL-Library.Word" "HOL-Library.AList"
begin

unbundle bit_operations_syntax

section \<open>Block: 16-bit values keyed by 16-bit ids (block.go)\<close>

text \<open>
  Go's \<open>uint32\<close> is \<open>32 word\<close>. \<open>Block.Length\<close> is a \<open>uint32\<close> that the code only
  increments below \<open>BLOCK_FULL_LENGTH\<close>, decrements above zero, or sets to \<open>1 << 16\<close>, so it
  never wraps and is a \<open>nat\<close> here. A panic is a value: every function that can panic
  returns \<open>panic + 'a\<close>, with one constructor per panic site of the source (an index out
  of range is Go's run-time panic).
\<close>

type_synonym uint32 = "32 word"

abbreviation (input) BLOCK_IDX_BITS :: nat where "BLOCK_IDX_BITS \<equiv> 16"
abbreviation (input) BLOCK_VAL_BITS :: nat where "BLOCK_VAL_BITS \<equiv> 16"
abbreviation (input) BLOCK_IDX_MASK :: uint32 where "BLOCK_IDX_MASK \<equiv> 0xFFFF"
abbreviation (input) BLOCK_VAL_MASK :: uint32 where "BLOCK_VAL_MASK \<equiv> 0xFFFF"
abbreviation (input) BLOCK_FULL_LENGTH :: nat where "BLOCK_FULL_LENGTH \<equiv> 32768"
abbreviation (input) BLOCK_PACKING_BITS :: nat where "BLOCK_PACKING_BITS \<equiv> 1"
abbreviation (input) BLOCK_PACKING_MASK :: uint32 where "BLOCK_PACKING_MASK \<equiv> 1"

datatype panic =
    IdTooLarge
  | ValTooLarge
  | MBValTooLarge
  | FrozenBlock
  | ArrayPushTooLarge
  | IndexOutOfRange
  | LookupTooLarge
  | CopyTooSmall
  | IdOutOfOrder
  | NilBlock
  | MixedKinds

record Block =
  Length :: nat
  Frozen :: bool
  Values :: "uint32 list"

definition NewAccumulationBlock :: Block where
  "NewAccumulationBlock =
     \<lparr>Length = 0, Frozen = False, Values = replicate BLOCK_FULL_LENGTH 0\<rparr>"

definition NewEmptyBlock :: Block where
  "NewEmptyBlock = \<lparr>Length = 0, Frozen = True, Values = []\<rparr>"

text \<open>Go's builtin \<open>copy(dst, src)\<close>: the first \<open>min (len dst) (len src)\<close> elements.\<close>

definition go_copy :: "'a list \<Rightarrow> 'a list \<Rightarrow> 'a list" where
  "go_copy dst src = take (length dst) src @ drop (length src) dst"

definition Copy :: "Block \<Rightarrow> Block" where
  "Copy b =
     \<lparr>Length = Length b, Frozen = True,
      Values = go_copy (replicate (if Length b > BLOCK_FULL_LENGTH then BLOCK_FULL_LENGTH
                                   else Length b) 0) (Values b)\<rparr>"

definition writePacked :: "uint32 list \<Rightarrow> uint32 \<Rightarrow> uint32 \<Rightarrow> panic + uint32 list" where
  "writePacked arr i val =
     (let hilo = i AND BLOCK_PACKING_MASK;
          idx = unat (drop_bit BLOCK_PACKING_BITS i)
      in if idx < length arr
         then Inr (arr[idx := (arr ! idx) OR push_bit (unat hilo * BLOCK_VAL_BITS) val])
         else Inl IndexOutOfRange)"

text \<open>The replay loop of the pairs-to-array transition: \<open>for _, kv := range b.Values\<close>.\<close>

fun replay :: "uint32 list \<Rightarrow> uint32 list \<Rightarrow> panic + uint32 list" where
  "replay tmp [] = Inr tmp"
| "replay tmp (kv # kvs) =
     (case writePacked tmp (drop_bit BLOCK_VAL_BITS kv) (kv AND BLOCK_VAL_MASK) of
        Inl e \<Rightarrow> Inl e
      | Inr tmp' \<Rightarrow> replay tmp' kvs)"

definition Append :: "Block \<Rightarrow> uint32 \<Rightarrow> uint32 \<Rightarrow> panic + Block" where
  "Append b i val =
     (if i > BLOCK_IDX_MASK then Inl IdTooLarge
      else if val > BLOCK_VAL_MASK then Inl ValTooLarge
      else if Frozen b then Inl FrozenBlock
      else if Length b > BLOCK_FULL_LENGTH then
        (if unat i \<ge> Length b then Inl ArrayPushTooLarge
         else case writePacked (Values b) i val of
                Inl e \<Rightarrow> Inl e
              | Inr vs \<Rightarrow> Inr (b\<lparr>Values := vs\<rparr>))
      else if Length b < BLOCK_FULL_LENGTH then
        (if Length b < length (Values b)
         then Inr (b\<lparr>Values := (Values b)[Length b := push_bit BLOCK_VAL_BITS i OR val],
                     Length := Length b + 1\<rparr>)
         else Inl IndexOutOfRange)
      else
        (case replay (replicate BLOCK_FULL_LENGTH 0) (Values b) of
           Inl e \<Rightarrow> Inl e
         | Inr tmp \<Rightarrow>
             (case writePacked tmp i val of
                Inl e \<Rightarrow> Inl e
              | Inr tmp' \<Rightarrow>
                  Inr (b\<lparr>Values := go_copy (Values b) tmp', Length := 2 ^ BLOCK_IDX_BITS\<rparr>))))"

definition Reset :: "Block \<Rightarrow> panic + Block" where
  "Reset b =
     (if Frozen b then Inl FrozenBlock
      else Inr (b\<lparr>Length := 0, Values := replicate (length (Values b)) 0\<rparr>))"

function search :: "uint32 list \<Rightarrow> uint32 \<Rightarrow> uint32" where
  "search arr lb =
     (if length arr = 0 then 0
      else if length arr = 1 then arr ! 0
      else let mididx = length arr div 2;
               mid = drop_bit BLOCK_VAL_BITS (arr ! mididx)
           in if lb < mid then search (take mididx arr) lb
              else search (drop mididx arr) lb)"
  by pat_completeness auto
termination
  by (relation "measure (\<lambda>(arr, lb). length arr)") (auto simp: neq_Nil_conv)

definition Lookup :: "Block \<Rightarrow> uint32 \<Rightarrow> panic + uint32" where
  "Lookup b i =
     (if i > BLOCK_IDX_MASK then Inl LookupTooLarge
      else if Length b > BLOCK_FULL_LENGTH then
        (let hilo = i AND BLOCK_PACKING_MASK;
             idx = unat (drop_bit BLOCK_PACKING_BITS i)
         in if idx < length (Values b)
            then Inr (drop_bit (unat hilo * BLOCK_VAL_BITS) (Values b ! idx) AND BLOCK_VAL_MASK)
            else Inl IndexOutOfRange)
      else if Length b \<le> length (Values b) then
        (let lb = search (take (Length b) (Values b)) i
         in if drop_bit BLOCK_VAL_BITS lb = i then Inr (lb AND BLOCK_VAL_MASK) else Inr 0)
      else Inl IndexOutOfRange)"

text \<open>
  \<open>UnAppend\<close> in array mode: the outer loop runs \<open>i\<close> from \<open>BLOCK_FULL_LENGTH - 1\<close> down to
  0, the inner loop \<open>j\<close> from \<open>BLOCK_PACKING_MASK\<close> down to 0; \<open>break Loop\<close> leaves both.
  When no cell is found the named results keep their zero values.
\<close>

fun unappend_cell :: "uint32 \<Rightarrow> nat \<Rightarrow> nat list \<Rightarrow> (uint32 \<times> uint32) option" where
  "unappend_cell v i [] = None"
| "unappend_cell v i (j # js) =
     (let vj = drop_bit (j * BLOCK_VAL_BITS) v AND BLOCK_VAL_MASK
      in if vj > 0 then Some (word_of_nat (push_bit BLOCK_PACKING_BITS i OR j), vj)
         else unappend_cell v i js)"

fun unappend_scan :: "uint32 list \<Rightarrow> nat \<Rightarrow> panic + (uint32 \<times> uint32)" where
  "unappend_scan vs 0 = Inr (0, 0)"
| "unappend_scan vs (Suc i) =
     (if i < length vs then
        (if vs ! i > 0 then
           (case unappend_cell (vs ! i) i [1, 0] of
              Some r \<Rightarrow> Inr r
            | None \<Rightarrow> unappend_scan vs i)
         else unappend_scan vs i)
      else Inl IndexOutOfRange)"

definition UnAppend :: "Block \<Rightarrow> panic + (Block \<times> uint32 \<times> uint32)" where
  "UnAppend b =
     (if Frozen b then Inl FrozenBlock
      else case
        (if Length b > BLOCK_FULL_LENGTH then
           (case unappend_scan (Values b) BLOCK_FULL_LENGTH of
              Inl e \<Rightarrow> Inl e
            | Inr (ix, val) \<Rightarrow> Inr (b, ix, val))
         else if Length b > 0 then
           (if Length b - 1 < length (Values b)
            then let kv = Values b ! (Length b - 1)
                 in Inr (b\<lparr>Length := Length b - 1\<rparr>,
                         drop_bit BLOCK_VAL_BITS kv, kv AND BLOCK_VAL_MASK)
            else Inl IndexOutOfRange)
         else Inr (b, 0, 0))
      of Inl e \<Rightarrow> Inl e
       | Inr (b', ix, val) \<Rightarrow>
           if ix > BLOCK_IDX_MASK then Inl IdTooLarge
           else if val > BLOCK_VAL_MASK then Inl ValTooLarge
           else Inr (b', ix, val))"

definition CopyFrom :: "Block \<Rightarrow> Block \<Rightarrow> panic + Block" where
  "CopyFrom b b2 =
     (if Frozen b then Inl FrozenBlock
      else case Reset b of
        Inl e \<Rightarrow> Inl e
      | Inr b' \<Rightarrow>
          if length (Values b') < length (Values b2) then Inl CopyTooSmall
          else Inr (b'\<lparr>Values := go_copy (Values b') (Values b2), Length := Length b2\<rparr>))"

subsection \<open>Iterator\<close>

text \<open>
  The iterator's \<open>idx\<close> is a Go \<open>int\<close> that starts at 0 and only grows, so it is a \<open>nat\<close>;
  \<open>Valid\<close> converts it with \<open>uint32(idx)\<close>, which is written out as \<open>mod 2 ^ 32\<close>.
\<close>

record Iterator =
  block :: Block
  idx :: nat

definition Valid :: "Iterator \<Rightarrow> bool" where
  "Valid it = (idx it mod 2 ^ 32 < Length (block it))"

definition Index :: "Iterator \<Rightarrow> panic + uint32" where
  "Index it =
     (if Length (block it) > BLOCK_FULL_LENGTH then Inr (word_of_nat (idx it))
      else if idx it < length (Values (block it))
           then Inr (drop_bit BLOCK_VAL_BITS (Values (block it) ! idx it))
           else Inl IndexOutOfRange)"

definition Value :: "Iterator \<Rightarrow> panic + uint32" where
  "Value it =
     (if Length (block it) > BLOCK_FULL_LENGTH then
        (let hilo = (word_of_nat (idx it) :: uint32) AND BLOCK_PACKING_MASK;
             ix = drop_bit BLOCK_PACKING_BITS (idx it)
         in if ix < length (Values (block it))
            then Inr (drop_bit (unat hilo * BLOCK_VAL_BITS) (Values (block it) ! ix)
                       AND BLOCK_VAL_MASK)
            else Inl IndexOutOfRange)
      else if idx it < length (Values (block it))
           then Inr (Values (block it) ! idx it AND BLOCK_VAL_MASK)
           else Inl IndexOutOfRange)"

text \<open>
  \<open>Next\<close> in array mode: \<open>next_cell\<close> is the inner loop over \<open>k = 0, 1\<close> of one word,
  \<open>next_scan\<close> the outer loop over the words \<open>j < BLOCK_FULL_LENGTH\<close>. The result is the new
  \<open>idx\<close>.
\<close>

fun next_cell :: "uint32 \<Rightarrow> nat \<Rightarrow> nat \<Rightarrow> nat list \<Rightarrow> nat option" where
  "next_cell v j cur [] = None"
| "next_cell v j cur (k # ks) =
     (let vj = drop_bit (k * BLOCK_VAL_BITS) v AND BLOCK_VAL_MASK;
          ii = push_bit BLOCK_PACKING_BITS j OR k
      in if vj > 0 \<and> ii > cur then Some ii else next_cell v j cur ks)"

function next_scan :: "uint32 list \<Rightarrow> nat \<Rightarrow> nat \<Rightarrow> panic + nat" where
  "next_scan vs cur j =
     (if j < BLOCK_FULL_LENGTH then
        (if j < length vs then
           (if vs ! j > 0 then
              (case next_cell (vs ! j) j cur [0, 1] of
                 Some ii \<Rightarrow> Inr ii
               | None \<Rightarrow> next_scan vs cur (j + 1))
            else next_scan vs cur (j + 1))
         else Inl IndexOutOfRange)
      else Inr (2 ^ BLOCK_IDX_BITS))"
  by pat_completeness auto
termination
  by (relation "measure (\<lambda>(vs, cur, j). BLOCK_FULL_LENGTH - j)") auto

definition Next :: "Iterator \<Rightarrow> panic + Iterator" where
  "Next it =
     (if Length (block it) > BLOCK_FULL_LENGTH then
        (case next_scan (Values (block it)) (idx it) (drop_bit BLOCK_PACKING_BITS (idx it)) of
           Inl e \<Rightarrow> Inl e
         | Inr ii \<Rightarrow> Inr (it\<lparr>idx := ii\<rparr>))
      else Inr (it\<lparr>idx := idx it + 1\<rparr>))"

definition Iterator :: "Block \<Rightarrow> Iterator" where
  "Iterator b = \<lparr>block = b, idx = 0\<rparr>"

subsection \<open>ResetAndMergeFrom\<close>

text \<open>
  One step of a loop body is \<open>b.Append(it.Index(), it.Value()); it = it.Next()\<close>; each of
  the three calls can panic. The loops themselves are \<open>partial_function\<close>s in the option
  monad: \<open>None\<close> is a loop that never ends, \<open>Some (Inl e)\<close> a panic.
\<close>

definition take_from :: "Block \<Rightarrow> Iterator \<Rightarrow> panic + (Block \<times> Iterator)" where
  "take_from b it =
     (case Index it of Inl e \<Rightarrow> Inl e | Inr i \<Rightarrow>
      case Value it of Inl e \<Rightarrow> Inl e | Inr v \<Rightarrow>
      case Append b i v of Inl e \<Rightarrow> Inl e | Inr b' \<Rightarrow>
      case Next it of Inl e \<Rightarrow> Inl e | Inr it' \<Rightarrow> Inr (b', it'))"

definition take_both :: "Block \<Rightarrow> Iterator \<Rightarrow> Iterator \<Rightarrow> panic + (Block \<times> Iterator \<times> Iterator)" where
  "take_both b it1 it2 =
     (case Index it1 of Inl e \<Rightarrow> Inl e | Inr i \<Rightarrow>
      case Value it1 of Inl e \<Rightarrow> Inl e | Inr v1 \<Rightarrow>
      case Value it2 of Inl e \<Rightarrow> Inl e | Inr v2 \<Rightarrow>
      case Append b i (v1 OR v2) of Inl e \<Rightarrow> Inl e | Inr b' \<Rightarrow>
      case Next it1 of Inl e \<Rightarrow> Inl e | Inr it1' \<Rightarrow>
      case Next it2 of Inl e \<Rightarrow> Inl e | Inr it2' \<Rightarrow> Inr (b', it1', it2'))"

text \<open>The body of the first loop: which of the three branches runs, and its result.\<close>

definition merge_step :: "Block \<Rightarrow> Iterator \<Rightarrow> Iterator \<Rightarrow> panic + (Block \<times> Iterator \<times> Iterator)" where
  "merge_step b it1 it2 =
     (case Index it1 of Inl e \<Rightarrow> Inl e | Inr i1 \<Rightarrow>
      case Index it2 of Inl e \<Rightarrow> Inl e | Inr i2 \<Rightarrow>
        if i1 < i2 then
          (case take_from b it1 of Inl e \<Rightarrow> Inl e | Inr (b', it1') \<Rightarrow> Inr (b', it1', it2))
        else if i1 = i2 then take_both b it1 it2
        else
          (case take_from b it2 of Inl e \<Rightarrow> Inl e | Inr (b', it2') \<Rightarrow> Inr (b', it1, it2')))"

partial_function (option) merge_loop ::
    "Block \<Rightarrow> Iterator \<Rightarrow> Iterator \<Rightarrow> (panic + (Block \<times> Iterator \<times> Iterator)) option" where
  "merge_loop b it1 it2 =
     (if Valid it1 \<and> Valid it2 then
        (case merge_step b it1 it2 of
           Inl e \<Rightarrow> Some (Inl e)
         | Inr (b', it1', it2') \<Rightarrow> merge_loop b' it1' it2')
      else Some (Inr (b, it1, it2)))"

partial_function (option) drain_loop :: "Block \<Rightarrow> Iterator \<Rightarrow> (panic + Block) option" where
  "drain_loop b it =
     (if Valid it then
        (case take_from b it of
           Inl e \<Rightarrow> Some (Inl e)
         | Inr (b', it') \<Rightarrow> drain_loop b' it')
      else Some (Inr b))"

declare merge_loop.simps [code]
declare drain_loop.simps [code]

definition ResetAndMergeFrom :: "Block \<Rightarrow> Block \<Rightarrow> Block \<Rightarrow> (panic + Block) option" where
  "ResetAndMergeFrom b block1 block2 =
     (case Reset b of
        Inl e \<Rightarrow> Some (Inl e)
      | Inr b0 \<Rightarrow>
          (case merge_loop b0 (Iterator block1) (Iterator block2) of
             None \<Rightarrow> None
           | Some (Inl e) \<Rightarrow> Some (Inl e)
           | Some (Inr (b1, it1, it2)) \<Rightarrow>
               (case drain_loop b1 it1 of
                  None \<Rightarrow> None
                | Some (Inl e) \<Rightarrow> Some (Inl e)
                | Some (Inr b2) \<Rightarrow> drain_loop b2 it2)))"

section \<open>MultiBlock: the sharded index (multi\_block.go)\<close>

text \<open>
  An \<open>int64\<close> id is an \<open>int\<close>: the code compares ids, shifts them right (\<open>drop_bit\<close> on
  \<open>int\<close> is the arithmetic shift), masks them (\<open>AND\<close> on \<open>int\<close> is two's complement) and
  rebuilds \<open>(lastKey << 16) | lastIdx\<close> from a key that was itself an id shifted right, so
  no operation on an id overflows. The Go map \<open>Blocks\<close> is an association list with
  \<open>map_of\<close> for the lookup, \<open>AList.update\<close> for the assignment and \<open>AList.delete\<close> for
  \<open>delete\<close>.
\<close>

record MultiBlock =
  Blocks :: "(int \<times> Block) list"
  Current :: Block
  LastId :: int
  LastVal :: uint32

definition NewMultiBlock :: MultiBlock where
  "NewMultiBlock =
     \<lparr>Blocks = [], Current = NewAccumulationBlock, LastId = 0, LastVal = 0\<rparr>"

definition MB_Append :: "MultiBlock \<Rightarrow> int \<Rightarrow> uint32 \<Rightarrow> panic + MultiBlock" where
  "MB_Append m i val =
     (if i < LastId m then Inl IdOutOfOrder
      else if val > BLOCK_VAL_MASK then Inl MBValTooLarge
      else if i = LastId m then Inr (m\<lparr>LastVal := LastVal m OR val\<rparr>)
      else
        (case Append (Current m) (word_of_int (LastId m AND 0xFFFF)) (LastVal m) of
           Inl e \<Rightarrow> Inl e
         | Inr cur \<Rightarrow>
             (let upper = drop_bit BLOCK_IDX_BITS i;
                  lastUpper = drop_bit BLOCK_IDX_BITS (LastId m)
              in if upper \<noteq> lastUpper then
                   (let blk = Copy cur
                    in case Reset cur of
                         Inl e \<Rightarrow> Inl e
                       | Inr cur' \<Rightarrow>
                           Inr (m\<lparr>Blocks := AList.update lastUpper blk (Blocks m),
                                  Current := cur', LastId := i, LastVal := val\<rparr>))
                 else Inr (m\<lparr>Current := cur, LastId := i, LastVal := val\<rparr>))))"

definition maxLastId :: int where
  "maxLastId = 2 ^ 63 - 1"

definition pushCurrent :: "MultiBlock \<Rightarrow> panic + MultiBlock" where
  "pushCurrent m =
     (case Append (Current m) (word_of_int (LastId m AND 0xFFFF)) (LastVal m) of
        Inl e \<Rightarrow> Inl e
      | Inr cur \<Rightarrow>
          (let lastUpper = drop_bit BLOCK_IDX_BITS (LastId m);
               blk = Copy cur
           in case Reset cur of
                Inl e \<Rightarrow> Inl e
              | Inr cur' \<Rightarrow>
                  Inr (m\<lparr>Blocks := AList.update lastUpper blk (Blocks m),
                         Current := cur', LastId := maxLastId, LastVal := 0\<rparr>)))"

definition sortedBlockKeys :: "MultiBlock \<Rightarrow> int list" where
  "sortedBlockKeys m = sort (map fst (Blocks m))"

definition unPushCurrent :: "MultiBlock \<Rightarrow> panic + MultiBlock" where
  "unPushCurrent m =
     (let blockKeys = sortedBlockKeys m
      in if length blockKeys > 0 then
           (let lastKey = blockKeys ! (length blockKeys - 1)
            in case map_of (Blocks m) lastKey of
                 None \<Rightarrow> Inl NilBlock
               | Some lastBlock \<Rightarrow>
                   (case CopyFrom (Current m) lastBlock of
                      Inl e \<Rightarrow> Inl e
                    | Inr cur \<Rightarrow>
                        (case UnAppend cur of
                           Inl e \<Rightarrow> Inl e
                         | Inr (cur', lastIdx, lastVal) \<Rightarrow>
                             Inr (m\<lparr>Blocks := AList.delete lastKey (Blocks m),
                                    Current := cur',
                                    LastId := push_bit BLOCK_IDX_BITS lastKey OR uint lastIdx,
                                    LastVal := lastVal\<rparr>))))
         else
           (case Reset (Current m) of
              Inl e \<Rightarrow> Inl e
            | Inr cur \<Rightarrow> Inr (m\<lparr>Current := cur, LastId := 0, LastVal := 0\<rparr>)))"

definition MB_Lookup :: "MultiBlock \<Rightarrow> int \<Rightarrow> panic + uint32" where
  "MB_Lookup m i =
     (if i = LastId m then Inr (LastVal m)
      else
        (let upper = drop_bit BLOCK_IDX_BITS i;
             lastUpper = drop_bit BLOCK_IDX_BITS (LastId m);
             blockIdx = (word_of_int (i AND 0xFFFF) :: uint32)
         in if upper = lastUpper then Lookup (Current m) blockIdx
            else case map_of (Blocks m) upper of
                   Some blk \<Rightarrow> Lookup blk blockIdx
                 | None \<Rightarrow> Inr 0))"

text \<open>
  \<open>Merge\<close>: Go visits the keys of \<open>mb2.Blocks\<close> in an unspecified order, so the order is
  the parameter \<open>order\<close> (a list of keys of \<open>mb2.Blocks\<close>), and \<open>merge_blocks\<close> is the loop
  over it. The result is the pair of the receiver and the blanked \<open>mb2\<close>.
\<close>

fun merge_blocks ::
    "Block \<Rightarrow> (int \<times> Block) list \<Rightarrow> (int \<times> Block) list \<Rightarrow> int list
       \<Rightarrow> (panic + (Block \<times> (int \<times> Block) list)) option" where
  "merge_blocks new_block bs bs2 [] = Some (Inr (new_block, bs))"
| "merge_blocks new_block bs bs2 (upper # rest) =
     (case map_of bs2 upper of
        None \<Rightarrow> Some (Inl NilBlock)
      | Some block2 \<Rightarrow>
          (case map_of bs upper of
             Some blk \<Rightarrow>
               (case ResetAndMergeFrom new_block blk block2 of
                  None \<Rightarrow> None
                | Some (Inl e) \<Rightarrow> Some (Inl e)
                | Some (Inr nb) \<Rightarrow> merge_blocks nb (AList.update upper (Copy nb) bs) bs2 rest)
           | None \<Rightarrow> merge_blocks new_block (AList.update upper block2 bs) bs2 rest))"

definition Merge ::
    "int list \<Rightarrow> MultiBlock \<Rightarrow> MultiBlock \<Rightarrow> (panic + (MultiBlock \<times> MultiBlock)) option" where
  "Merge order mb mb2 =
     (case pushCurrent mb of
        Inl e \<Rightarrow> Some (Inl e)
      | Inr mb' \<Rightarrow>
          (case pushCurrent mb2 of
             Inl e \<Rightarrow> Some (Inl e)
           | Inr mb2' \<Rightarrow>
               (case merge_blocks NewAccumulationBlock (Blocks mb') (Blocks mb2') order of
                  None \<Rightarrow> None
                | Some (Inl e) \<Rightarrow> Some (Inl e)
                | Some (Inr (nb, bs)) \<Rightarrow>
                    (case unPushCurrent (mb'\<lparr>Blocks := bs\<rparr>) of
                       Inl e \<Rightarrow> Some (Inl e)
                     | Inr mb'' \<Rightarrow>
                         Some (Inr (mb'',
                                    \<lparr>Blocks = [], Current = NewEmptyBlock,
                                     LastId = 0, LastVal = 0\<rparr>))))))"

text \<open>A run of appends, stopping at the first panic.\<close>

fun Appends :: "Block \<Rightarrow> (uint32 \<times> uint32) list \<Rightarrow> panic + Block" where
  "Appends b [] = Inr b"
| "Appends b ((i, val) # ps) =
     (case Append b i val of Inl e \<Rightarrow> Inl e | Inr b' \<Rightarrow> Appends b' ps)"

fun MB_Appends :: "MultiBlock \<Rightarrow> (int \<times> uint32) list \<Rightarrow> panic + MultiBlock" where
  "MB_Appends m [] = Inr m"
| "MB_Appends m ((i, val) # ps) =
     (case MB_Append m i val of Inl e \<Rightarrow> Inl e | Inr m' \<Rightarrow> MB_Appends m' ps)"

section \<open>The way worker (way\_worker.go)\<close>

text \<open>
  The Go map \<open>ExtraNodes\<close> is an association list; reading a missing key gives the zero
  value. \<open>way_masks\<close> is the first loop of \<open>putWay\<close> (it fills \<open>nd_masks\<close> and
  accumulates \<open>mask\<close>, here \<open>msk\<close>), \<open>way_extras\<close> the second.
\<close>

record wayWorker =
  Ways :: MultiBlock
  ExtraNodes :: "(int \<times> uint32) list"
  Id :: int
  Nodes :: MultiBlock

fun way_masks ::
    "MultiBlock \<Rightarrow> int list \<Rightarrow> uint32 list \<Rightarrow> uint32 \<Rightarrow> panic + (uint32 list \<times> uint32)" where
  "way_masks nodes [] nd_masks msk = Inr (nd_masks, msk)"
| "way_masks nodes (n # nds) nd_masks msk =
     (case MB_Lookup nodes n of
        Inl e \<Rightarrow> Inl e
      | Inr v \<Rightarrow> way_masks nodes nds (nd_masks @ [v]) (msk OR v))"

definition extra_get :: "(int \<times> uint32) list \<Rightarrow> int \<Rightarrow> uint32" where
  "extra_get extra n = (case map_of extra n of None \<Rightarrow> 0 | Some v \<Rightarrow> v)"

fun way_extras ::
    "(int \<times> uint32) list \<Rightarrow> uint32 \<Rightarrow> (int \<times> uint32) list \<Rightarrow> (int \<times> uint32) list" where
  "way_extras extra msk [] = extra"
| "way_extras extra msk ((n, nd_mask) # rest) =
     way_extras
       (if nd_mask \<noteq> msk
        then AList.update n (extra_get extra n OR (msk AND NOT nd_mask)) extra
        else extra)
       msk rest"

definition putWay :: "wayWorker \<Rightarrow> int \<Rightarrow> int list \<Rightarrow> panic + wayWorker" where
  "putWay w i nds =
     (case way_masks (Nodes w) nds [] 0 of
        Inl e \<Rightarrow> Inl e
      | Inr (nd_masks, msk) \<Rightarrow>
          (case MB_Append (Ways w) i msk of
             Inl e \<Rightarrow> Inl e
           | Inr ways \<Rightarrow>
               Inr (w\<lparr>Ways := ways,
                      ExtraNodes := way_extras (ExtraNodes w) msk (zip nds nd_masks)\<rparr>)))"

section \<open>The node worker (node\_worker.go)\<close>










section \<open>The sorter's entry point (sorter.go, pbf\_reader.go)\<close>








section \<open>Specification functions and invariants\<close>

text \<open>
  \<open>or_vals ps i\<close> is the bitwise OR of all values that the list of appends \<open>ps\<close> holds
  under the id \<open>i\<close>, and \<open>last_val ps i\<close> the value of its last append under \<open>i\<close>; both are 0
  when \<open>i\<close> was never appended.
\<close>

fun or_vals :: "('k \<times> uint32) list \<Rightarrow> 'k \<Rightarrow> uint32" where
  "or_vals [] i = 0"
| "or_vals ((j, v) # ps) i = (if j = i then v OR or_vals ps i else or_vals ps i)"

fun last_val :: "('k \<times> uint32) list \<Rightarrow> 'k \<Rightarrow> uint32" where
  "last_val [] i = 0"
| "last_val ((j, v) # ps) i =
     (if i \<in> fst ` set ps then last_val ps i else if j = i then v else 0)"

text \<open>
  \<open>cell vs n\<close> is the 16-bit cell \<open>n\<close> of a packed array (two cells per word), and
  \<open>plk xs j\<close> what a list of packed pairs holds under the key \<open>j\<close>: the value of the last
  pair with that key, 0 if there is none.
\<close>

definition cell :: "uint32 list \<Rightarrow> nat \<Rightarrow> uint32" where
  "cell vs n = drop_bit (16 * (n mod 2)) (vs ! (n div 2)) AND 0xFFFF"

definition plk :: "uint32 list \<Rightarrow> uint32 \<Rightarrow> uint32" where
  "plk xs j =
     (let ys = filter (\<lambda>kv. drop_bit 16 kv = j) xs
      in if ys = [] then 0 else last ys AND 0xFFFF)"

text \<open>
  A packed pair is \<open>(id << 16) | val\<close>. \<open>entries b\<close> are the pairs that a block in pairs
  mode holds, in storage order. \<open>lk b j\<close> is the content of a block under the id \<open>j\<close>: the
  cell \<open>j\<close> in array mode, the value of the last pair with the key \<open>j\<close> in pairs mode.
\<close>

definition unpack :: "uint32 \<Rightarrow> uint32 \<times> uint32" where
  "unpack kv = (drop_bit 16 kv, kv AND 0xFFFF)"

definition pack :: "uint32 \<times> uint32 \<Rightarrow> uint32" where
  "pack p = push_bit 16 (fst p) OR snd p"

definition entries :: "Block \<Rightarrow> (uint32 \<times> uint32) list" where
  "entries b = map unpack (take (Length b) (Values b))"

definition lk :: "Block \<Rightarrow> uint32 \<Rightarrow> uint32" where
  "lk b j =
     (if Length b > BLOCK_FULL_LENGTH then cell (Values b) (unat j) else last_val (entries b) j)"

text \<open>
  A well-formed block: in array mode the length is \<open>1 << 16\<close> and the storage has
  \<open>BLOCK_FULL_LENGTH\<close> words; in pairs mode the pairs lie within the storage, which has at
  most \<open>BLOCK_FULL_LENGTH\<close> words, and their keys increase strictly. An accumulation block is a well-formed mutable block with the full
  storage. \<open>below b i\<close> says that \<open>i\<close> may be appended to \<open>b\<close>: in pairs mode every key of \<open>b\<close>
  is smaller.
\<close>

definition wf_block :: "Block \<Rightarrow> bool" where
  "wf_block b =
     (if Length b > BLOCK_FULL_LENGTH
      then Length b = 65536 \<and> length (Values b) = BLOCK_FULL_LENGTH
      else Length b \<le> length (Values b) \<and> length (Values b) \<le> BLOCK_FULL_LENGTH
           \<and> sorted_wrt (<) (map fst (entries b)))"

definition accum :: "Block \<Rightarrow> bool" where
  "accum b = (wf_block b \<and> \<not> Frozen b \<and> length (Values b) = BLOCK_FULL_LENGTH)"

definition below :: "Block \<Rightarrow> uint32 \<Rightarrow> bool" where
  "below b i = (Length b \<le> BLOCK_FULL_LENGTH \<longrightarrow> (\<forall>k\<in>set (map fst (entries b)). k < i))"

text \<open>
  \<open>rep b ps\<close>: the accumulation block \<open>b\<close> represents the list of appends \<open>ps\<close>, whatever
  the order of its ids. Up to \<open>BLOCK_FULL_LENGTH\<close> appends it holds them as pairs, beyond
  that each cell holds the OR of the values appended under it.
\<close>

definition rep :: "Block \<Rightarrow> (uint32 \<times> uint32) list \<Rightarrow> bool" where
  "rep b ps =
     (\<not> Frozen b \<and> length (Values b) = BLOCK_FULL_LENGTH \<and>
      (if length ps \<le> BLOCK_FULL_LENGTH then Length b = length ps \<and> entries b = ps
       else Length b = 65536 \<and> (\<forall>n < 65536. cell (Values b) n = or_vals ps (word_of_nat n))))"

text \<open>\<open>lookup_after ps j\<close>: append \<open>ps\<close> to a fresh accumulation block, then look \<open>j\<close> up.\<close>

definition lookup_after :: "(uint32 \<times> uint32) list \<Rightarrow> uint32 \<Rightarrow> panic + uint32" where
  "lookup_after ps j =
     (case Appends NewAccumulationBlock ps of Inl e \<Rightarrow> Inl e | Inr b \<Rightarrow> Lookup b j)"

text \<open>
  An id splits into its shard \<open>hi i\<close> (the upper bits) and its index \<open>lo i\<close> within the shard.
  \<open>mlk m j\<close> is the content of a MultiBlock under the id \<open>j\<close>, read off its three parts
  the way \<open>MultiBlock.Lookup\<close> reads them, and \<open>blocks_lk bs j\<close> the content of a map of
  blocks alone.
\<close>

definition lo :: "int \<Rightarrow> uint32" where
  "lo i = word_of_int (i AND 0xFFFF)"

definition hi :: "int \<Rightarrow> int" where
  "hi i = drop_bit 16 i"

definition blocks_lk :: "(int \<times> Block) list \<Rightarrow> int \<Rightarrow> uint32" where
  "blocks_lk bs j = (case map_of bs (hi j) of None \<Rightarrow> 0 | Some b \<Rightarrow> lk b (lo j))"

definition mlk :: "MultiBlock \<Rightarrow> int \<Rightarrow> uint32" where
  "mlk m j =
     (if j = LastId m then LastVal m
      else if hi j = hi (LastId m) then lk (Current m) (lo j)
      else blocks_lk (Blocks m) j)"

text \<open>
  The invariant of a MultiBlock that is not pushed: \<open>Current\<close> is an accumulation block
  whose content lies below the pending id (strictly, but for bits that the pending value
  holds as well), and the map holds well-formed frozen blocks of earlier shards.
\<close>

definition blocks_ok :: "(int \<times> Block) list \<Rightarrow> bool" where
  "blocks_ok bs = (\<forall>(k, b)\<in>set bs. wf_block b \<and> Frozen b)"

definition mb_inv :: "MultiBlock \<Rightarrow> bool" where
  "mb_inv m =
     (accum (Current m) \<and> LastVal m \<le> 0xFFFF
      \<and> below (Current m) (lo (LastId m))
      \<and> (\<forall>j \<le> 0xFFFF. lo (LastId m) < j \<longrightarrow> lk (Current m) j = 0)
      \<and> lk (Current m) (lo (LastId m)) OR LastVal m = LastVal m
      \<and> blocks_ok (Blocks m)
      \<and> (\<forall>k\<in>fst ` set (Blocks m). k < hi (LastId m)))"

text \<open>
  An iterator at position \<open>k\<close> of the block \<open>b\<close>: \<open>it_index b k\<close> is the id it points to, and
  \<open>rest b k j\<close> what the positions from \<open>k\<close> on hold under the id \<open>j\<close>.
\<close>

definition it_index :: "Block \<Rightarrow> nat \<Rightarrow> uint32" where
  "it_index b k =
     (if Length b > BLOCK_FULL_LENGTH then word_of_nat k else drop_bit 16 (Values b ! k))"

definition rest :: "Block \<Rightarrow> nat \<Rightarrow> uint32 \<Rightarrow> uint32" where
  "rest b k j =
     (if Length b > BLOCK_FULL_LENGTH
      then (if k \<le> unat j then cell (Values b) (unat j) else 0)
      else last_val (drop k (entries b)) j)"

text \<open>
  The MultiBlocks that the program can build: a new one, one more append, or a merge of
  two of them, for any order in which the loop of \<open>Merge\<close> visits the keys of the pushed
  \<open>mb2\<close> (the keys of its map and the shard of its pending id).
\<close>

inductive reachable :: "MultiBlock \<Rightarrow> bool" where
  new: "reachable NewMultiBlock"
| append: "reachable m \<Longrightarrow> MB_Append m i val = Inr m' \<Longrightarrow> reachable m'"
| merge: "reachable m \<Longrightarrow> reachable m2
           \<Longrightarrow> set order = insert (hi (LastId m2)) (fst ` set (Blocks m2))
           \<Longrightarrow> Merge order m m2 = Some (Inr (m', d)) \<Longrightarrow> reachable m'"

text \<open>\<open>mb_lookup_after ps j\<close>: append \<open>ps\<close> to a new MultiBlock, then look \<open>j\<close> up.\<close>

definition mb_lookup_after :: "(int \<times> uint32) list \<Rightarrow> int \<Rightarrow> panic + uint32" where
  "mb_lookup_after ps j =
     (case MB_Appends NewMultiBlock ps of Inl e \<Rightarrow> Inl e | Inr m \<Rightarrow> MB_Lookup m j)"

text \<open>\<open>all_frozen m\<close>: every block in the map of \<open>m\<close> is frozen.\<close>

definition all_frozen :: "MultiBlock \<Rightarrow> bool" where
  "all_frozen m = (\<forall>(k, b)\<in>set (Blocks m). Frozen b)"

text \<open>
  The way-phase scenario S5 of the spec: the global nodes MultiBlock is built by the
  appends \<open>(10, 1)\<close>, \<open>(11, 2)\<close>, \<open>(12, 1)\<close>, and a fresh way worker over it processes the way
  100 with the refs \<open>[10, 11, 12]\<close>. \<open>S5_way i\<close> is what its \<open>Ways\<close> then holds under \<open>i\<close>, and
  \<open>S5_extra n\<close> the entry of its extra-nodes map for the node \<open>n\<close>.
\<close>

definition S5_worker :: "panic + wayWorker" where
  "S5_worker =
     (case MB_Appends NewMultiBlock [(10, 1), (11, 2), (12, 1)] of
        Inl e \<Rightarrow> Inl e
      | Inr nodes \<Rightarrow>
          putWay \<lparr>Ways = NewMultiBlock, ExtraNodes = [], Id = 0, Nodes = nodes\<rparr>
            100 [10, 11, 12])"

definition S5_way :: "int \<Rightarrow> panic + uint32" where
  "S5_way i = (case S5_worker of Inl e \<Rightarrow> Inl e | Inr w \<Rightarrow> MB_Lookup (Ways w) i)"

definition S5_extra :: "int \<Rightarrow> panic + uint32 option" where
  "S5_extra n = (case S5_worker of Inl e \<Rightarrow> Inl e | Inr w \<Rightarrow> Inr (map_of (ExtraNodes w) n))"

text \<open>
  \<open>merge_lookup_after ps1 ps2 j\<close>: append \<open>ps1\<close> to one new accumulation block and \<open>ps2\<close> to
  another, merge the two into a third with \<open>ResetAndMergeFrom\<close>, then look \<open>j\<close> up in it.
\<close>

definition merge_lookup_after ::
    "(uint32 \<times> uint32) list \<Rightarrow> (uint32 \<times> uint32) list \<Rightarrow> uint32 \<Rightarrow> (panic + uint32) option" where
  "merge_lookup_after ps1 ps2 j =
     (case Appends NewAccumulationBlock ps1 of
        Inl e \<Rightarrow> Some (Inl e)
      | Inr a \<Rightarrow>
          (case Appends NewAccumulationBlock ps2 of
             Inl e \<Rightarrow> Some (Inl e)
           | Inr b \<Rightarrow>
               (case ResetAndMergeFrom NewAccumulationBlock a b of
                  None \<Rightarrow> None
                | Some (Inl e) \<Rightarrow> Some (Inl e)
                | Some (Inr c) \<Rightarrow> Some (Lookup c j))))"


section \<open>Words: packed pairs and packed cells\<close>

declare search.simps [simp del]

lemma search_Nil: "search [] lb = 0"
  by (subst search.simps) simp

lemma mask16: "(0xFFFF :: uint32) = mask 16"
  by (simp add: mask_eq_exp_minus_1)

lemma le_mask16_and: "(v :: uint32) \<le> 0xFFFF \<Longrightarrow> v AND mask 16 = v"
proof -
  assume "v \<le> 0xFFFF"
  then have "v < 2 ^ 16" by (simp add: word_le_nat_alt word_less_nat_alt)
  then show ?thesis by (rule less_mask_eq)
qed

lemma le_mask16_bit: "(v :: uint32) \<le> 0xFFFF \<Longrightarrow> bit v n \<Longrightarrow> n < 16"
proof -
  assume a: "v \<le> 0xFFFF" and b: "bit v n"
  from b le_mask16_and[OF a] have "bit (v AND mask 16) n" by simp
  then show ?thesis by (simp add: bit_simps)
qed

lemma key_pack:
  "i \<le> (0xFFFF :: uint32) \<Longrightarrow> v \<le> 0xFFFF \<Longrightarrow> drop_bit 16 (push_bit 16 i OR v) = i"
  apply (rule bit_word_eqI)
  apply (auto simp: bit_simps dest: le_mask16_bit)
  done

lemma val_pack: "v \<le> (0xFFFF :: uint32) \<Longrightarrow> (push_bit 16 i OR v) AND 0xFFFF = v"
  unfolding mask16
  apply (rule bit_word_eqI)
  apply (auto simp: bit_simps dest: le_mask16_bit[unfolded mask16])
  done

lemma and_mask16_le: "(kv :: uint32) AND 0xFFFF \<le> 0xFFFF"
  by (simp add: word_and_le1)

lemma key_le: "drop_bit 16 (kv :: uint32) \<le> 0xFFFF"
proof -
  have "drop_bit 16 kv = drop_bit 16 kv AND mask 16"
    by (rule bit_word_eqI) (auto simp: bit_simps dest: bit_imp_le_length)
  then show ?thesis using and_mask16_le[of "drop_bit 16 kv"] unfolding mask16 by simp
qed

section \<open>Which panics an operation can raise\<close>





section \<open>The grid cell of a node\<close>



section \<open>Binary search on packed pairs\<close>


lemma plk_Nil [simp]: "plk [] j = 0"
  by (simp add: plk_def)

lemma plk_single: "plk [x] j = (if drop_bit 16 x = j then x AND 0xFFFF else 0)"
  by (simp add: plk_def)

lemma plk_append:
  "plk (xs @ ys) j = (if filter (\<lambda>kv. drop_bit 16 kv = j) ys = [] then plk xs j else plk ys j)"
  by (simp add: plk_def Let_def)

lemma plk_none: "\<forall>kv\<in>set xs. drop_bit 16 kv \<noteq> j \<Longrightarrow> plk xs j = 0"
  by (simp add: plk_def Let_def filter_empty_conv)

lemma search_single: "search [x] lb = x"
  by (subst search.simps) simp

lemma search_rec:
  "2 \<le> length arr \<Longrightarrow>
   search arr lb =
     (if lb < drop_bit 16 (arr ! (length arr div 2))
      then search (take (length arr div 2) arr) lb
      else search (drop (length arr div 2) arr) lb)"
  by (subst search.simps) (auto simp add: Let_def)

lemma search_plk:
  "sorted (map (drop_bit 16) xs) \<Longrightarrow>
   (if drop_bit 16 (search xs j) = j then search xs j AND 0xFFFF else 0) = plk xs j"
proof (induction xs j rule: search.induct)
  case (1 arr lb)
  show ?case
  proof (cases "length arr < 2")
    case True
    then consider "arr = []" | x where "arr = [x]"
      by (cases arr; cases "tl arr"; auto)
    then show ?thesis
    proof cases
      case 1 then show ?thesis by (auto simp: search_Nil)
    next
      case 2 then show ?thesis by (simp add: search_single plk_single)
    qed
  next
    case False
    define m where "m = length arr div 2"
    from False have len: "2 \<le> length arr" by simp
    then have m: "0 < m" "m < length arr" by (simp_all add: m_def)
    from len have ne: "arr \<noteq> []" by auto
    from "1.prems" have srt: "sorted (map (drop_bit 16) (take m arr) @ map (drop_bit 16) (drop m arr))"
      by (metis append_take_drop_id map_append)
    then have s1: "sorted (map (drop_bit 16) (take m arr))"
      and s2: "sorted (map (drop_bit 16) (drop m arr))"
      and s3: "\<forall>x\<in>set (take m arr). \<forall>y\<in>set (drop m arr). drop_bit 16 x \<le> drop_bit 16 y"
      by (auto simp: sorted_append)
    have mid_in: "arr ! m \<in> set (drop m arr)"
      using m by (metis Cons_nth_drop_Suc list.set_intros(1))
    have hd_drop: "\<forall>y\<in>set (drop m arr). drop_bit 16 (arr ! m) \<le> drop_bit 16 y"
    proof -
      have "drop m arr = arr ! m # drop (Suc m) arr" using m by (simp add: Cons_nth_drop_Suc)
      with s2 show ?thesis by auto
    qed
    show ?thesis
    proof (cases "lb < drop_bit 16 (arr ! m)")
      case True
      have ih: "(if drop_bit 16 (search (take m arr) lb) = lb then search (take m arr) lb AND 0xFFFF else 0) = plk (take m arr) lb"
        using "1.IH"(1)[OF _ _ refl refl _ s1[unfolded m_def]] len ne True
        by (auto simp: m_def split: if_splits)
      have "filter (\<lambda>kv. drop_bit 16 kv = lb) (drop m arr) = []"
        using hd_drop True by (auto simp: filter_empty_conv)
      then have "plk arr lb = plk (take m arr) lb"
        using plk_append[of "take m arr" "drop m arr" lb] by simp
      moreover have "search arr lb = search (take m arr) lb"
        using len True by (simp add: search_rec m_def)
      ultimately show ?thesis using ih by (auto split: if_splits)
    next
      case False
      have ih: "(if drop_bit 16 (search (drop m arr) lb) = lb then search (drop m arr) lb AND 0xFFFF else 0) = plk (drop m arr) lb"
        using "1.IH"(2)[OF _ _ refl refl _ s2[unfolded m_def]] len ne False
        by (auto simp: m_def split: if_splits)
      have "plk arr lb = plk (drop m arr) lb"
      proof (cases "filter (\<lambda>kv. drop_bit 16 kv = lb) (drop m arr) = []")
        case True
        then have nd: "\<forall>kv\<in>set (drop m arr). drop_bit 16 kv \<noteq> lb" by (simp add: filter_empty_conv)
        with mid_in have "drop_bit 16 (arr ! m) \<noteq> lb" by blast
        with False have lt: "drop_bit 16 (arr ! m) < lb" by simp
        have "\<forall>kv\<in>set (take m arr). drop_bit 16 kv \<noteq> lb"
          using s3 mid_in lt by fastforce
        with nd have "\<forall>kv\<in>set arr. drop_bit 16 kv \<noteq> lb"
          by (metis Un_iff append_take_drop_id set_append)
        then show ?thesis using nd by (simp add: plk_none)
      next
        case False
        then show ?thesis using plk_append[of "take m arr" "drop m arr" lb] by simp
      qed
      moreover have "search arr lb = search (drop m arr) lb"
        using len False by (simp add: search_rec m_def)
      ultimately show ?thesis using ih by (auto split: if_splits)
    qed
  qed
qed

section \<open>Packed cells\<close>


lemma half_word:
  fixes w v :: uint32
  assumes "v \<le> 0xFFFF" "s \<in> {0, 16}" "t \<in> {0, 16}"
  shows "drop_bit s (w OR push_bit t v) AND 0xFFFF
           = (drop_bit s w AND 0xFFFF) OR (if s = t then v else 0)"
  unfolding mask16
  apply (rule bit_word_eqI)
  using assms(2,3)
  apply (auto simp: bit_simps dest: le_mask16_bit[OF assms(1)])
  done

lemma unat_half: "unat (drop_bit 1 (i :: uint32)) = unat i div 2"
  by (simp add: unat_drop_bit_eq drop_bit_eq_div unat_div)

lemma unat_half': "unat (drop_bit (Suc 0) (i :: uint32)) = unat i div 2"
  using unat_half[of i] by simp

lemma unat_hilo: "unat ((i :: uint32) AND 1) = unat i mod 2"
proof -
  have "unat i mod 2 < 2 ^ 32" by (rule less_le_trans[of _ 2]) simp_all
  then show ?thesis
    by (simp add: and_one_eq unat_mod_distrib of_bool_def word_arith_nat_mod odd_iff_mod_2_eq_one unat_of_nat)
qed

lemma writePacked_cell:
  assumes "unat i div 2 < length arr" "v \<le> 0xFFFF"
  shows "\<exists>arr'. writePacked arr i v = Inr arr' \<and> length arr' = length arr
           \<and> (\<forall>n < 2 * length arr.
                 cell arr' n = (if n = unat i then cell arr n OR v else cell arr n))"
proof -
  define arr' where "arr' = arr[unat i div 2 := (arr ! (unat i div 2)) OR push_bit (unat i mod 2 * 16) v]"
  have w: "writePacked arr i v = Inr arr'"
    using assms(1) by (simp add: writePacked_def Let_def unat_half unat_half' unat_hilo arr'_def)
  have len: "length arr' = length arr" by (simp add: arr'_def)
  have c: "cell arr' n = (if n = unat i then cell arr n OR v else cell arr n)" if n: "n < 2 * length arr" for n
  proof (cases "n div 2 = unat i div 2")
    case False
    then have "n \<noteq> unat i" by auto
    with False show ?thesis by (simp add: cell_def arr'_def)
  next
    case True
    have s: "16 * (n mod 2) \<in> {0, 16}" "unat i mod 2 * 16 \<in> {0, 16}" by auto
    have e: "(16 * (n mod 2) = unat i mod 2 * 16) = (n = unat i)"
      using True by (metis div_mod_decomp mult.commute mult_cancel1 zero_neq_numeral)
    from True assms(1) have "arr' ! (n div 2) = (arr ! (n div 2)) OR push_bit (unat i mod 2 * 16) v"
      by (simp add: arr'_def)
    then show ?thesis
      unfolding cell_def using half_word[OF assms(2) s, of "arr ! (n div 2)"] e by simp 
  qed
  from w len c show ?thesis by blast
qed

section \<open>Lists of appends\<close>


lemma unpack_pack: "fst p \<le> 0xFFFF \<Longrightarrow> snd p \<le> 0xFFFF \<Longrightarrow> unpack (pack p) = p"
  unfolding unpack_def pack_def by (simp only: key_pack val_pack prod.collapse)

lemma unpack_le: "fst (unpack kv) \<le> 0xFFFF \<and> snd (unpack kv) \<le> 0xFFFF"
  by (simp add: unpack_def key_le and_mask16_le)

lemma last_val_notin: "j \<notin> fst ` set xs \<Longrightarrow> last_val xs j = 0"
  by (induction xs) auto

lemma last_val_append:
  "last_val (xs @ ys) j = (if j \<in> fst ` set ys then last_val ys j else last_val xs j)"
proof (induction xs)
  case Nil
  then show ?case by (simp add: last_val_notin)
next
  case (Cons a xs)
  obtain k v where a: "a = (k, v)" by (cases a)
  show ?case
  proof (cases "j \<in> fst ` set ys")
    case True
    then have "j \<in> fst ` set (xs @ ys)" by (simp add: image_Un)
    with True Cons a show ?thesis by simp
  next
    case False
    with Cons a show ?thesis by (simp add: image_Un)
  qed
qed

lemma or_vals_append: "or_vals (xs @ ys) j = or_vals xs j OR or_vals ys j"
  by (induction xs) (auto simp: or.assoc)

lemma or_vals_notin: "j \<notin> fst ` set xs \<Longrightarrow> or_vals xs j = 0"
  by (induction xs) auto

lemma last_val_distinct: "distinct (map fst xs) \<Longrightarrow> last_val xs j = or_vals xs j"
  by (induction xs) (auto simp: or_vals_notin last_val_notin)

lemma plk_last_val: "plk xs j = last_val (map unpack xs) j"
proof (induction xs rule: rev_induct)
  case Nil
  then show ?case by simp
next
  case (snoc x xs)
  show ?case
    using snoc by (auto simp: plk_append last_val_append plk_single unpack_def)
qed

lemma cell_zero: "n < 65536 \<Longrightarrow> cell (replicate 32768 0) n = 0"
  by (simp add: cell_def)

lemma uint32_of_nat_unat: "word_of_nat (unat (j :: uint32)) = j"
  by simp

lemma unat_uint32_of_nat: "n < 65536 \<Longrightarrow> unat (word_of_nat n :: uint32) = n"
  by (simp add: unat_of_nat)

lemma uint32_eq_of_nat: "n < 65536 \<Longrightarrow> ((w :: uint32) = word_of_nat n) = (n = unat w)"
  using unat_uint32_of_nat[of n] uint32_of_nat_unat[of w] by auto

lemma replay_cells:
  assumes "length tmp = 32768"
  shows "\<exists>tmp'. replay tmp kvs = Inr tmp' \<and> length tmp' = 32768
           \<and> (\<forall>n < 65536. cell tmp' n = cell tmp n OR or_vals (map unpack kvs) (word_of_nat n))"
  using assms
proof (induction kvs arbitrary: tmp)
  case Nil
  then show ?case by simp
next
  case (Cons kv kvs)
  have k: "unat (drop_bit 16 kv) div 2 < length tmp"
    using key_le[of kv] Cons.prems by (simp add: word_le_nat_alt)
  from writePacked_cell[OF k and_mask16_le[of kv]] obtain t1 where
    w: "writePacked tmp (drop_bit 16 kv) (kv AND 0xFFFF) = Inr t1" and l1: "length t1 = 32768"
    and c1: "\<forall>n < 65536. cell t1 n = (if n = unat (drop_bit 16 kv) then cell tmp n OR (kv AND 0xFFFF) else cell tmp n)"
    using Cons.prems by auto
  from Cons.IH[OF l1] obtain t2 where
    r: "replay t1 kvs = Inr t2" and l2: "length t2 = 32768"
    and c2: "\<forall>n < 65536. cell t2 n = cell t1 n OR or_vals (map unpack kvs) (word_of_nat n)"
    by blast
  have "cell t2 n = cell tmp n OR or_vals (map unpack (kv # kvs)) (word_of_nat n)" if n: "n < 65536" for n
  proof -
    have e: "(drop_bit 16 kv = (word_of_nat n :: uint32)) = (n = unat (drop_bit 16 kv))"
      using n by (rule uint32_eq_of_nat)
    show ?thesis using c1 c2 n e by (simp add: unpack_def or.assoc)
  qed
  with w r l2 show ?case by simp
qed

section \<open>Block.Append, case by case\<close>


lemma unat_le_mask: "(i :: uint32) \<le> 0xFFFF \<Longrightarrow> unat i < 65536"
  by (simp add: word_le_nat_alt)

lemma not_gt_mask: "(v :: uint32) \<le> 0xFFFF \<Longrightarrow> \<not> 0xFFFF < v"
  by (simp only: not_less)

lemma entries_snoc:
  assumes "Length b < length (Values b)" "i \<le> 0xFFFF" "v \<le> 0xFFFF"
  shows "entries (b\<lparr>Values := (Values b)[Length b := push_bit 16 i OR v], Length := Length b + 1\<rparr>)
           = entries b @ [(i, v)]"
  using assms unpack_pack[of "(i, v)"]
  by (simp add: entries_def take_Suc_conv_app_nth pack_def)

lemma Append_pairs:
  assumes "\<not> Frozen b" "Length b < BLOCK_FULL_LENGTH" "length (Values b) = BLOCK_FULL_LENGTH"
    "i \<le> 0xFFFF" "v \<le> 0xFFFF"
  shows "\<exists>b'. Append b i v = Inr b' \<and> \<not> Frozen b' \<and> length (Values b') = BLOCK_FULL_LENGTH
           \<and> Length b' = Length b + 1 \<and> entries b' = entries b @ [(i, v)]"
proof -
  from assms have l: "Length b < length (Values b)" by simp
  have "Append b i v = Inr (b\<lparr>Values := (Values b)[Length b := push_bit 16 i OR v], Length := Length b + 1\<rparr>)"
    using assms by (simp add: Append_def not_gt_mask)
  then show ?thesis using entries_snoc[OF l assms(4,5)] assms by simp
qed

lemma Append_array:
  assumes "\<not> Frozen b" "Length b = 65536" "length (Values b) = BLOCK_FULL_LENGTH"
    "i \<le> 0xFFFF" "v \<le> 0xFFFF"
  shows "\<exists>b'. Append b i v = Inr b' \<and> \<not> Frozen b' \<and> length (Values b') = BLOCK_FULL_LENGTH
           \<and> Length b' = 65536
           \<and> (\<forall>n < 65536. cell (Values b') n
                  = (if n = unat i then cell (Values b) n OR v else cell (Values b) n))"
proof -
  have k: "unat i div 2 < length (Values b)"
    using unat_le_mask[OF assms(4)] assms(3) by simp
  from writePacked_cell[OF k assms(5)] obtain vs where
    w: "writePacked (Values b) i v = Inr vs" and l: "length vs = length (Values b)"
    and c: "\<forall>n < 2 * length (Values b). cell vs n = (if n = unat i then cell (Values b) n OR v else cell (Values b) n)"
    by blast
  have "Append b i v = Inr (b\<lparr>Values := vs\<rparr>)"
    using assms w unat_le_mask[OF assms(4)] by (simp add: Append_def not_gt_mask)
  then show ?thesis using l c assms by simp
qed

lemma go_copy_same: "length dst = length src \<Longrightarrow> go_copy dst src = src"
  by (simp add: go_copy_def)

lemma Append_transition:
  assumes "\<not> Frozen b" "Length b = BLOCK_FULL_LENGTH" "length (Values b) = BLOCK_FULL_LENGTH"
    "i \<le> 0xFFFF" "v \<le> 0xFFFF"
  shows "\<exists>b'. Append b i v = Inr b' \<and> \<not> Frozen b' \<and> length (Values b') = BLOCK_FULL_LENGTH
           \<and> Length b' = 65536
           \<and> (\<forall>n < 65536. cell (Values b') n = or_vals (entries b @ [(i, v)]) (word_of_nat n))"
proof -
  from replay_cells[of "replicate 32768 0" "Values b"] obtain tmp where
    r: "replay (replicate 32768 0) (Values b) = Inr tmp" and lt: "length tmp = 32768"
    and ct: "\<forall>n < 65536. cell tmp n = cell (replicate 32768 0) n OR or_vals (map unpack (Values b)) (word_of_nat n)"
    by auto
  have k: "unat i div 2 < length tmp"
    using unat_le_mask[OF assms(4)] lt by simp
  from writePacked_cell[OF k assms(5)] obtain vs where
    w: "writePacked tmp i v = Inr vs" and l: "length vs = 32768"
    and c: "\<forall>n < 65536. cell vs n = (if n = unat i then cell tmp n OR v else cell tmp n)"
    using lt by auto
  have e: "entries b = map unpack (Values b)"
    using assms by (simp add: entries_def)
  have a: "Append b i v = Inr (b\<lparr>Values := vs, Length := 65536\<rparr>)"
    using assms r w l by (simp add: Append_def go_copy_same not_gt_mask)
  have "cell vs n = or_vals (entries b @ [(i, v)]) (word_of_nat n)" if n: "n < 65536" for n
    using c ct n e uint32_eq_of_nat[OF n, of i] by (simp add: or_vals_append cell_zero)
  with a l assms show ?thesis by simp
qed

section \<open>A block after any list of appends\<close>


lemma Lookup_array:
  assumes "Length b > BLOCK_FULL_LENGTH" "length (Values b) = BLOCK_FULL_LENGTH" "j \<le> 0xFFFF"
  shows "Lookup b j = Inr (cell (Values b) (unat j))"
  using assms unat_le_mask[OF assms(3)]
  by (simp add: Lookup_def Let_def not_gt_mask unat_half unat_half' unat_hilo cell_def mult.commute)

lemma Lookup_pairs:
  assumes "Length b \<le> BLOCK_FULL_LENGTH" "Length b \<le> length (Values b)"
    "sorted (map fst (entries b))" "j \<le> 0xFFFF"
  shows "Lookup b j = Inr (last_val (entries b) j)"
proof -
  have "map fst (entries b) = map (drop_bit 16) (take (Length b) (Values b))"
    by (simp add: entries_def unpack_def comp_def)
  with assms(3) have s: "sorted (map (drop_bit 16) (take (Length b) (Values b)))" by simp
  have "plk (take (Length b) (Values b)) j = last_val (entries b) j"
    by (simp add: plk_last_val entries_def)
  with search_plk[OF s, of j] show ?thesis
    using assms by (auto simp: Lookup_def Let_def not_gt_mask split: if_splits)
qed

lemma rep_New: "rep NewAccumulationBlock []"
  by (simp add: rep_def NewAccumulationBlock_def entries_def)

lemma rep_step:
  assumes "rep b ps" "i \<le> 0xFFFF" "v \<le> 0xFFFF"
  shows "\<exists>b'. Append b i v = Inr b' \<and> rep b' (ps @ [(i, v)])"
proof -
  from assms(1) have nf: "\<not> Frozen b" and len: "length (Values b) = BLOCK_FULL_LENGTH"
    by (simp_all add: rep_def)
  consider "length ps < BLOCK_FULL_LENGTH" | "length ps = BLOCK_FULL_LENGTH" | "length ps > BLOCK_FULL_LENGTH"
    by linarith
  then show ?thesis
  proof cases
    case 1
    with assms(1) have L: "Length b = length ps" and e: "entries b = ps" by (simp_all add: rep_def)
    from Append_pairs[OF nf _ len assms(2,3)] L 1 obtain b' where
      "Append b i v = Inr b'" "\<not> Frozen b'" "length (Values b') = BLOCK_FULL_LENGTH"
      "Length b' = Length b + 1" "entries b' = entries b @ [(i, v)]" by auto
    with L e 1 show ?thesis by (auto simp: rep_def)
  next
    case 2
    with assms(1) have L: "Length b = BLOCK_FULL_LENGTH" and e: "entries b = ps" by (simp_all add: rep_def)
    from Append_transition[OF nf L len assms(2,3)] obtain b' where
      "Append b i v = Inr b'" "\<not> Frozen b'" "length (Values b') = BLOCK_FULL_LENGTH"
      "Length b' = 65536" "\<forall>n < 65536. cell (Values b') n = or_vals (entries b @ [(i, v)]) (word_of_nat n)"
      by auto
    with e 2 show ?thesis by (auto simp: rep_def)
  next
    case 3
    with assms(1) have L: "Length b = 65536"
      and c: "\<forall>n < 65536. cell (Values b) n = or_vals ps (word_of_nat n)" by (simp_all add: rep_def)
    from Append_array[OF nf L len assms(2,3)] obtain b' where
      a: "Append b i v = Inr b'" "\<not> Frozen b'" "length (Values b') = BLOCK_FULL_LENGTH"
      "Length b' = 65536"
      and c': "\<forall>n < 65536. cell (Values b') n = (if n = unat i then cell (Values b) n OR v else cell (Values b) n)"
      by auto
    have "cell (Values b') n = or_vals (ps @ [(i, v)]) (word_of_nat n)" if n: "n < 65536" for n
      using c c' n uint32_eq_of_nat[OF n, of i] by (simp add: or_vals_append)
    with a 3 show ?thesis by (auto simp: rep_def)
  qed
qed

lemma rep_Appends:
  assumes "rep b qs" "\<forall>(i, v)\<in>set ps. i \<le> 0xFFFF \<and> v \<le> 0xFFFF"
  shows "\<exists>b'. Appends b ps = Inr b' \<and> rep b' (qs @ ps)"
  using assms
proof (induction ps arbitrary: b qs)
  case Nil
  then show ?case by simp
next
  case (Cons p ps)
  obtain i v where p: "p = (i, v)" by (cases p)
  with Cons.prems have iv: "i \<le> 0xFFFF" "v \<le> 0xFFFF" by auto
  from rep_step[OF Cons.prems(1) iv] obtain b1 where
    a: "Append b i v = Inr b1" and r: "rep b1 (qs @ [(i, v)])" by blast
  from Cons.IH[OF r] Cons.prems(2) obtain b' where
    "Appends b1 ps = Inr b'" "rep b' ((qs @ [(i, v)]) @ ps)" by auto
  with a p show ?case by simp
qed

lemma rep_Lookup:
  assumes "rep b ps" "sorted (map fst ps)" "j \<le> 0xFFFF"
  shows "Lookup b j = Inr (if Length b > BLOCK_FULL_LENGTH then or_vals ps j else last_val ps j)"
proof (cases "length ps \<le> BLOCK_FULL_LENGTH")
  case True
  with assms(1) have "Length b = length ps" "entries b = ps" "length (Values b) = BLOCK_FULL_LENGTH"
    by (simp_all add: rep_def)
  with True assms Lookup_pairs[of b j] show ?thesis by simp
next
  case False
  with assms(1) have L: "Length b = 65536" and len: "length (Values b) = BLOCK_FULL_LENGTH"
    and c: "\<forall>n < 65536. cell (Values b) n = or_vals ps (word_of_nat n)" by (simp_all add: rep_def)
  from c unat_le_mask[OF assms(3)] have "cell (Values b) (unat j) = or_vals ps j" by simp
  with Lookup_array[OF _ len assms(3)] L show ?thesis by simp
qed

section \<open>Well-formed blocks: one append\<close>


lemma strict_keys:
  "sorted_wrt (<) (xs :: uint32 list) \<Longrightarrow> sorted xs \<and> distinct xs"
  by (simp add: strict_sorted_iff)

lemma wf_Lookup:
  assumes "wf_block b" "j \<le> 0xFFFF"
  shows "Lookup b j = Inr (lk b j)"
proof (cases "Length b > BLOCK_FULL_LENGTH")
  case True
  with assms Lookup_array[of b j] show ?thesis by (simp add: wf_block_def lk_def)
next
  case False
  with assms(1) have "Length b \<le> length (Values b)" "sorted (map fst (entries b))"
    using strict_keys[of "map fst (entries b)"] by (simp_all add: wf_block_def)
  with False assms Lookup_pairs[of b j] show ?thesis by (simp add: lk_def)
qed

lemma lk_le: "lk b j \<le> 0xFFFF"
proof (cases "Length b > BLOCK_FULL_LENGTH")
  case True
  then show ?thesis by (simp add: lk_def cell_def and_mask16_le)
next
  case False
  have "last_val xs j \<le> 0xFFFF" if "\<forall>p\<in>set xs. snd p \<le> 0xFFFF" for xs :: "(uint32 \<times> uint32) list"
    using that by (induction xs) auto
  moreover have "\<forall>p\<in>set (entries b). snd p \<le> 0xFFFF"
    by (auto simp: entries_def unpack_le)
  ultimately show ?thesis using False by (simp add: lk_def)
qed

lemma entry_key_le: "k \<in> fst ` set (entries b) \<Longrightarrow> k \<le> 0xFFFF"
  by (auto simp: entries_def unpack_def key_le)

lemma Append_step:
  assumes "accum b" "i \<le> 0xFFFF" "v \<le> 0xFFFF" "below b i"
  shows "\<exists>b'. Append b i v = Inr b' \<and> accum b'
           \<and> (\<forall>j \<le> 0xFFFF. lk b' j = (if j = i then lk b j OR v else lk b j))
           \<and> (\<forall>i'. i < i' \<longrightarrow> below b' i')"
proof -
  from assms(1) have wf: "wf_block b" and nf: "\<not> Frozen b" and len: "length (Values b) = BLOCK_FULL_LENGTH"
    by (simp_all add: accum_def)
  consider "Length b < BLOCK_FULL_LENGTH" | "Length b = BLOCK_FULL_LENGTH" | "Length b > BLOCK_FULL_LENGTH"
    by linarith
  then show ?thesis
  proof cases
    case 1
    with wf assms(4) have s: "sorted_wrt (<) (map fst (entries b))"
      and bl: "\<forall>k\<in>set (map fst (entries b)). k < i"
      by (simp_all add: wf_block_def below_def)
    from Append_pairs[OF nf 1 len assms(2,3)] obtain b' where
      a: "Append b i v = Inr b'" and nf': "\<not> Frozen b'" and len': "length (Values b') = BLOCK_FULL_LENGTH"
      and L': "Length b' = Length b + 1" and e': "entries b' = entries b @ [(i, v)]" by auto
    have s': "sorted_wrt (<) (map fst (entries b'))"
      using s bl by (simp add: e' sorted_wrt_append)
    have wf': "wf_block b'" using L' 1 len' s' by (simp add: wf_block_def)
    have ni: "i \<notin> fst ` set (entries b)" using bl by auto
    have l: "lk b' j = (if j = i then lk b j OR v else lk b j)" for j
      using 1 L' ni by (simp add: lk_def e' last_val_append last_val_notin)
    have "below b' i'" if "i < i'" for i'
      using bl that by (auto simp: below_def e')
    with a wf' nf' len' l show ?thesis by (auto simp: accum_def)
  next
    case 2
    with wf have s: "sorted_wrt (<) (map fst (entries b))"
      by (simp_all add: wf_block_def)
    then have d: "distinct (map fst (entries b))" using strict_keys by blast
    from Append_transition[OF nf 2 len assms(2,3)] obtain b' where
      a: "Append b i v = Inr b'" and nf': "\<not> Frozen b'" and len': "length (Values b') = BLOCK_FULL_LENGTH"
      and L': "Length b' = 65536"
      and c: "\<forall>n < 65536. cell (Values b') n = or_vals (entries b @ [(i, v)]) (word_of_nat n)"
      by auto
    have wf': "wf_block b'" using L' len' by (simp add: wf_block_def)
    have l: "lk b' j = (if j = i then lk b j OR v else lk b j)" if "j \<le> 0xFFFF" for j
    proof -
      from c unat_le_mask[OF that] have "cell (Values b') (unat j) = or_vals (entries b @ [(i, v)]) j"
        by simp
      then show ?thesis using 2 L' d by (simp add: lk_def or_vals_append last_val_distinct)
    qed
    have "below b' i'" for i' using L' by (simp add: below_def)
    with a wf' nf' len' l show ?thesis by (auto simp: accum_def)
  next
    case 3
    with wf have L: "Length b = 65536" by (simp add: wf_block_def)
    from Append_array[OF nf L len assms(2,3)] obtain b' where
      a: "Append b i v = Inr b'" and nf': "\<not> Frozen b'" and len': "length (Values b') = BLOCK_FULL_LENGTH"
      and L': "Length b' = 65536"
      and c: "\<forall>n < 65536. cell (Values b') n = (if n = unat i then cell (Values b) n OR v else cell (Values b) n)"
      by auto
    have wf': "wf_block b'" using L' len' by (simp add: wf_block_def)
    have l: "lk b' j = (if j = i then lk b j OR v else lk b j)" if "j \<le> 0xFFFF" for j
      using c unat_le_mask[OF that] L L' by (auto simp: lk_def word_unat_eq_iff)
    have "below b' i'" for i' using L' by (simp add: below_def)
    with a wf' nf' len' l show ?thesis by (auto simp: accum_def)
  qed
qed

section \<open>Copy, Reset, CopyFrom\<close>


lemma Copy_wf:
  assumes "wf_block b"
  shows "wf_block (Copy b) \<and> Frozen (Copy b) \<and> Length (Copy b) = Length b
           \<and> (\<forall>j. lk (Copy b) j = lk b j)"
proof (cases "Length b > BLOCK_FULL_LENGTH")
  case True
  with assms have "Values (Copy b) = Values b"
    by (simp add: Copy_def go_copy_def wf_block_def)
  with True assms show ?thesis by (simp add: wf_block_def lk_def Copy_def)
next
  case False
  with assms have v: "Values (Copy b) = take (Length b) (Values b)"
    by (simp add: Copy_def go_copy_def wf_block_def)
  have L: "Length (Copy b) = Length b" by (simp add: Copy_def)
  have e: "entries (Copy b) = entries b" by (simp add: entries_def v L)
  from assms False have "length (Values (Copy b)) = Length b" by (simp add: v wf_block_def)
  with False assms e L show ?thesis by (simp add: wf_block_def lk_def) (simp add: Copy_def)
qed

lemma Reset_accum:
  assumes "\<not> Frozen b" "length (Values b) = BLOCK_FULL_LENGTH"
  shows "\<exists>b0. Reset b = Inr b0 \<and> accum b0 \<and> Length b0 = 0 \<and> (\<forall>j. lk b0 j = 0) \<and> (\<forall>i. below b0 i)"
  using assms
  by (simp add: Reset_def accum_def wf_block_def entries_def lk_def below_def)

lemma CopyFrom_accum:
  assumes "\<not> Frozen b" "length (Values b) = BLOCK_FULL_LENGTH" "wf_block b2"
  shows "\<exists>c. CopyFrom b b2 = Inr c \<and> accum c \<and> Length c = Length b2
           \<and> (\<forall>j. lk c j = lk b2 j)
           \<and> (Length b2 \<le> BLOCK_FULL_LENGTH \<longrightarrow> entries c = entries b2)"
proof -
  from assms(3) have l2: "length (Values b2) \<le> BLOCK_FULL_LENGTH"
    by (auto simp: wf_block_def split: if_splits)
  define c where "c = b\<lparr>Length := Length b2,
     Values := Values b2 @ replicate (BLOCK_FULL_LENGTH - length (Values b2)) 0\<rparr>"
  have cf: "CopyFrom b b2 = Inr c"
    using assms(1,2) l2 by (simp add: CopyFrom_def Reset_def go_copy_def c_def)
  have nf: "\<not> Frozen c" using assms(1) by (simp add: c_def)
  have len: "length (Values c) = BLOCK_FULL_LENGTH" using l2 by (simp add: c_def)
  have L: "Length c = Length b2" by (simp add: c_def)
  show ?thesis
  proof (cases "Length b2 > BLOCK_FULL_LENGTH")
    case True
    with assms(3) have "length (Values b2) = BLOCK_FULL_LENGTH" "Length b2 = 65536"
      by (simp_all add: wf_block_def)
    then have "Values c = Values b2" by (simp add: c_def)
    with True L len cf nf assms(3) show ?thesis by (simp add: accum_def wf_block_def lk_def)
  next
    case False
    with assms(3) have "Length b2 \<le> length (Values b2)" by (simp add: wf_block_def)
    then have e: "entries c = entries b2" by (simp add: entries_def c_def)
    with False L len cf nf assms(3) show ?thesis by (simp add: accum_def wf_block_def lk_def)
  qed
qed

section \<open>UnAppend\<close>


lemma cell_even: "cell vs (2 * i) = vs ! i AND 0xFFFF"
  by (simp add: cell_def)

lemma cell_odd: "cell vs (2 * i + 1) = drop_bit 16 (vs ! i) AND 0xFFFF"
proof -
  have "(2 * i + 1) div 2 = i" "(2 * i + 1) mod 2 = 1" by simp_all
  then show ?thesis unfolding cell_def by simp
qed

lemma nat_cell_index:
  "push_bit 1 (i :: nat) OR 0 = 2 * i" "push_bit 1 (i :: nat) OR 1 = 2 * i + 1"
proof -
  show "push_bit 1 (i :: nat) OR 0 = 2 * i" by (simp add: push_bit_eq_mult)
  have "(2 * i) OR (1 :: nat) = 2 * i + 1" by (simp only: or_one_eq) simp
  then show "push_bit 1 (i :: nat) OR 1 = 2 * i + 1" by (simp add: push_bit_eq_mult mult.commute)
qed

lemma unappend_cell_eq:
  assumes "n1 = 2 * i + 1" "n0 = 2 * i"
  shows "unappend_cell (vs ! i) i [1, 0] =
     (if cell vs n1 > 0 then Some (word_of_nat n1, cell vs n1)
      else if cell vs n0 > 0 then Some (word_of_nat n0, cell vs n0)
      else None)"
proof -
  have a1: "push_bit 1 i OR (1 :: nat) = n1" and a0: "push_bit 1 i OR (0 :: nat) = n0"
    using assms nat_cell_index[of i] by simp_all
  have c1: "drop_bit (1 * 16) (vs ! i) AND 0xFFFF = cell vs n1"
    and c0: "drop_bit (0 * 16) (vs ! i) AND 0xFFFF = cell vs n0"
    using assms cell_odd[of vs i] cell_even[of vs i] by simp_all
  show ?thesis
    by (simp only: unappend_cell.simps Let_def a1 a0 c1 c0)
qed

lemma cell_of_zero_word: "vs ! (n div 2) = 0 \<Longrightarrow> cell vs n = 0"
  by (simp add: cell_def)

lemma unappend_scan_top:
  assumes "k \<le> length vs" "k \<le> 32768" "\<forall>n. 2 * k \<le> n \<and> n < 65536 \<longrightarrow> cell vs n = 0"
  shows "\<exists>ix v. unappend_scan vs k = Inr (ix, v) \<and> ix \<le> 0xFFFF \<and> v = cell vs (unat ix)
           \<and> (\<forall>n. unat ix < n \<and> n < 65536 \<longrightarrow> cell vs n = 0)"
  using assms
proof (induction k)
  case 0
  then show ?case by simp
next
  case (Suc i)
  define n1 where "n1 = 2 * i + 1"
  define n0 where "n0 = 2 * i"
  note uc = unappend_cell_eq[OF n1_def n0_def, of vs]
  from Suc.prems have i: "i < length vs" "i < 32768" by simp_all
  have le: "n1 < 65536" "n0 < 65536" using i by (simp_all add: n1_def n0_def)
  have dv: "n1 div 2 = i" "n0 div 2 = i" by (simp_all add: n1_def n0_def)
  have above: "\<forall>n. n1 < n \<and> n < 65536 \<longrightarrow> cell vs n = 0"
    using Suc.prems(3) by (simp add: n1_def)
  have step: "unappend_scan vs (Suc i) =
     (if vs ! i > 0 then (case unappend_cell (vs ! i) i [1, 0] of Some r \<Rightarrow> Inr r
            | None \<Rightarrow> unappend_scan vs i) else unappend_scan vs i)"
    using i by (simp del: unappend_cell.simps)
  show ?case
  proof (cases "cell vs n1 > 0")
    case True
    then have nz: "vs ! i > 0" using cell_of_zero_word[of vs n1] dv by (auto simp: word_gt_0)
    have u: "unat (word_of_nat n1 :: uint32) = n1"
      using le by (simp only: unat_uint32_of_nat)
    from u le have "(word_of_nat n1 :: uint32) \<le> 0xFFFF"
      by (simp only: word_le_nat_alt) simp
    with u above True nz show ?thesis
      by (simp only: step uc) simp
  next
    case False
    then have z1: "cell vs n1 = 0" by (simp add: word_gt_0)
    show ?thesis
    proof (cases "cell vs n0 > 0")
      case True
      then have nz: "vs ! i > 0" using cell_of_zero_word[of vs n0] dv by (auto simp: word_gt_0)
      have u: "unat (word_of_nat n0 :: uint32) = n0"
        using le by (simp only: unat_uint32_of_nat)
      from u le have l: "(word_of_nat n0 :: uint32) \<le> 0xFFFF"
        by (simp only: word_le_nat_alt) simp
      have ab: "\<forall>n. n0 < n \<and> n < 65536 \<longrightarrow> cell vs n = 0"
      proof (intro allI impI)
        fix n assume n: "n0 < n \<and> n < 65536"
        show "cell vs n = 0"
        proof (cases "n = n1")
          case True with z1 show ?thesis by simp
        next
          case False with n above show ?thesis by (simp add: n1_def n0_def)
        qed
      qed
      from u l ab True z1 nz show ?thesis
        by (simp only: step uc) simp
    next
      case False
      then have z0: "cell vs n0 = 0" by (simp add: word_gt_0)
      have z: "\<forall>n. 2 * i \<le> n \<and> n < 65536 \<longrightarrow> cell vs n = 0"
      proof (intro allI impI)
        fix n assume n: "2 * i \<le> n \<and> n < 65536"
        consider "n = n0" | "n = n1" | "n1 < n" using n unfolding n0_def n1_def by arith
        then show "cell vs n = 0" using z0 z1 above n by cases auto
      qed
      from Suc.IH[OF _ _ z] Suc.prems obtain ix v where
        r: "unappend_scan vs i = Inr (ix, v)" "ix \<le> 0xFFFF" "v = cell vs (unat ix)"
           "\<forall>n. unat ix < n \<and> n < 65536 \<longrightarrow> cell vs n = 0" by auto
      have "unappend_scan vs (Suc i) = unappend_scan vs i"
        using z0 z1 by (simp only: step uc) simp
      with r show ?thesis by simp
    qed
  qed
qed



lemma UnAppend_accum:
  assumes "accum c"
  shows "\<exists>c' ix v. UnAppend c = Inr (c', ix, v) \<and> accum c' \<and> ix \<le> 0xFFFF \<and> v \<le> 0xFFFF
           \<and> v = lk c ix
           \<and> (\<forall>j \<le> 0xFFFF. ix < j \<longrightarrow> lk c j = 0)
           \<and> (\<forall>j \<le> 0xFFFF. j \<noteq> ix \<longrightarrow> lk c' j = lk c j)
           \<and> lk c' ix OR v = v \<and> below c' ix"
proof -
  from assms have wf: "wf_block c" and nf: "\<not> Frozen c" and len: "length (Values c) = BLOCK_FULL_LENGTH"
    by (simp_all add: accum_def)
  consider "Length c > BLOCK_FULL_LENGTH" | "Length c = 0" | "0 < Length c" "Length c \<le> BLOCK_FULL_LENGTH"
    by linarith
  then show ?thesis
  proof cases
    case 1
    have vac: "\<forall>n. 2 * 32768 \<le> n \<and> n < 65536 \<longrightarrow> cell (Values c) n = 0" by auto
    from unappend_scan_top[OF _ _ vac] len obtain ix v where
      u: "unappend_scan (Values c) 32768 = Inr (ix, v)" and ix: "ix \<le> 0xFFFF"
      and v: "v = cell (Values c) (unat ix)"
      and ab: "\<forall>n. unat ix < n \<and> n < 65536 \<longrightarrow> cell (Values c) n = 0" by auto
    from v have vle: "v \<le> 0xFFFF" by (simp add: cell_def and_mask16_le)
    have un: "UnAppend c = Inr (c, ix, v)"
      using nf 1 u ix vle by (simp add: UnAppend_def not_gt_mask)
    have a: "\<forall>j \<le> 0xFFFF. ix < j \<longrightarrow> lk c j = 0"
      using ab 1 unat_le_mask by (auto simp: lk_def word_less_nat_alt)
    from un assms ix vle v 1 a show ?thesis by (simp add: lk_def below_def)
  next
    case 2
    then have e: "entries c = []" by (simp add: entries_def)
    have un: "UnAppend c = Inr (c, 0, 0)"
      using nf 2 by (simp add: UnAppend_def)
    from un assms 2 e show ?thesis by (simp add: lk_def below_def)
  next
    case 3
    define c' where "c' = c\<lparr>Length := Length c - 1\<rparr>"
    define kv where "kv = Values c ! (Length c - 1)"
    define ix where "ix = drop_bit 16 kv"
    define v where "v = kv AND 0xFFFF"
    have ix: "ix \<le> 0xFFFF" and vle: "v \<le> 0xFFFF" by (simp_all add: ix_def v_def key_le and_mask16_le)
    from 3 len have lt: "Length c - 1 < length (Values c)" by simp
    have un: "UnAppend c = Inr (c', ix, v)"
      using nf 3 lt ix vle by (simp add: UnAppend_def Let_def c'_def kv_def ix_def v_def not_gt_mask)
    have "take (Length c) (Values c) = take (Length c - 1) (Values c) @ [kv]"
      using 3 lt take_Suc_conv_app_nth[of "Length c - 1" "Values c"] by (simp add: kv_def)
    then have e: "entries c = entries c' @ [(ix, v)]"
      by (simp add: entries_def c'_def unpack_def ix_def v_def)
    from wf 3 have s: "sorted_wrt (<) (map fst (entries c))" by (simp add: wf_block_def)
    then have s': "sorted_wrt (<) (map fst (entries c'))"
      and bl: "\<forall>k\<in>set (map fst (entries c')). k < ix"
      by (simp_all add: e sorted_wrt_append)
    have L': "Length c' \<le> BLOCK_FULL_LENGTH" using 3 by (simp add: c'_def)
    have acc: "accum c'"
      using L' s' 3 lt assms by (simp add: accum_def wf_block_def) (simp add: c'_def)
    have ni: "ix \<notin> fst ` set (entries c')" using bl by auto
    have p1: "v = lk c ix" using 3 by (simp add: lk_def e last_val_append)
    have p2: "\<forall>j \<le> 0xFFFF. ix < j \<longrightarrow> lk c j = 0"
    proof (intro allI impI)
      fix j :: uint32 assume "ix < j"
      then have "j \<notin> fst ` set (entries c)" using bl by (auto simp: e)
      then show "lk c j = 0" using 3 by (simp add: lk_def last_val_notin)
    qed
    have p3: "\<forall>j \<le> 0xFFFF. j \<noteq> ix \<longrightarrow> lk c' j = lk c j"
      using 3 L' by (simp add: lk_def e last_val_append)
    have p4: "lk c' ix OR v = v" using L' ni by (simp add: lk_def last_val_notin)
    have p5: "below c' ix" using bl by (simp add: below_def)
    from un acc ix vle p1 p2 p3 p4 p5 show ?thesis by blast
  qed
qed

section \<open>Shard and index of an id\<close>


lemma int_and_mask16: "(i :: int) AND 0xFFFF = i mod 65536"
proof -
  have "i AND mask 16 = i mod 2 ^ 16"
    by (simp add: take_bit_eq_mask[symmetric] take_bit_eq_mod)
  moreover have "(mask 16 :: int) = 0xFFFF" by (simp add: mask_eq_exp_minus_1)
  ultimately show ?thesis by simp
qed

lemma hi_div: "hi i = i div 65536"
  by (simp add: hi_def drop_bit_eq_div)

lemma uint_lo: "uint (lo i) = i mod 65536"
proof -
  have "i mod 65536 < 2 ^ 32" by (rule less_le_trans[of _ 65536]) simp_all
  then show ?thesis
    by (simp add: lo_def int_and_mask16 uint_word_of_int take_bit_int_eq_self)
qed

lemma lo_le: "lo i \<le> 0xFFFF"
proof -
  have "uint (lo i) < 65536" by (simp add: uint_lo)
  then show ?thesis by (simp add: word_le_def)
qed

lemma lo_less_iff: "lo i < lo j \<longleftrightarrow> i mod 65536 < j mod 65536"
  by (simp add: word_less_def uint_lo)

lemma lo_eq_iff: "lo i = lo j \<longleftrightarrow> i mod 65536 = j mod 65536"
  by (metis uint_lo word_uint_eq_iff)

lemma hi_lo_eq: "hi i = hi j \<Longrightarrow> lo i = lo j \<Longrightarrow> i = j"
  unfolding hi_div lo_eq_iff by (metis mult_div_mod_eq)

lemma hi_lo_less: "hi i = hi j \<Longrightarrow> i < j \<Longrightarrow> lo i < lo j"
  unfolding hi_div lo_less_iff
  by (smt (verit) mult_div_mod_eq)

lemma hi_mono: "i \<le> j \<Longrightarrow> hi i \<le> hi j"
  unfolding hi_div by (simp add: zdiv_mono1)

lemma join_hi_lo:
  assumes "ix \<le> (0xFFFF :: uint32)"
  shows "hi (push_bit 16 k OR uint ix) = k \<and> lo (push_bit 16 k OR uint ix) = ix"
proof -
  have u: "0 \<le> uint ix" "uint ix < 65536" using assms by (simp_all add: word_le_def)
  have "push_bit 16 k OR uint ix = k * 65536 + uint ix"
  proof -
    have "push_bit 16 k OR uint ix = push_bit 16 k + uint ix"
      by (rule disjunctive_add[symmetric]) (use assms in \<open>auto simp: bit_simps dest: le_mask16_bit\<close>)
    then show ?thesis by (simp add: push_bit_eq_mult)
  qed
  then have e: "push_bit 16 k OR uint ix = uint ix + k * 65536" by simp
  have h: "hi (push_bit 16 k OR uint ix) = k" using u by (simp add: e hi_div)
  have "uint (lo (push_bit 16 k OR uint ix)) = uint ix" using u by (simp add: e uint_lo)
  then have "lo (push_bit 16 k OR uint ix) = ix" by (simp add: word_uint_eq_iff)
  with h show ?thesis by simp
qed

section \<open>MultiBlock: lookup and append\<close>


lemma MB_Lookup_alt:
  "MB_Lookup m i =
     (if i = LastId m then Inr (LastVal m)
      else if hi i = hi (LastId m) then Lookup (Current m) (lo i)
      else case map_of (Blocks m) (hi i) of Some blk \<Rightarrow> Lookup blk (lo i) | None \<Rightarrow> Inr 0)"
  by (auto simp: MB_Lookup_def lo_def hi_def Let_def split: option.splits)

lemma MB_Append_alt:
  "MB_Append m i val =
     (if i < LastId m then Inl IdOutOfOrder
      else if val > 0xFFFF then Inl MBValTooLarge
      else if i = LastId m then Inr (m\<lparr>LastVal := LastVal m OR val\<rparr>)
      else
        (case Append (Current m) (lo (LastId m)) (LastVal m) of
           Inl e \<Rightarrow> Inl e
         | Inr cur \<Rightarrow>
             if hi i \<noteq> hi (LastId m) then
               (case Reset cur of
                  Inl e \<Rightarrow> Inl e
                | Inr cur' \<Rightarrow>
                    Inr (m\<lparr>Blocks := AList.update (hi (LastId m)) (Copy cur) (Blocks m),
                           Current := cur', LastId := i, LastVal := val\<rparr>))
             else Inr (m\<lparr>Current := cur, LastId := i, LastVal := val\<rparr>)))"
  by (auto simp: MB_Append_def lo_def hi_def Let_def split: sum.splits)

lemma blocks_ok_map_of: "blocks_ok bs \<Longrightarrow> map_of bs k = Some b \<Longrightarrow> wf_block b \<and> Frozen b"
  by (auto simp: blocks_ok_def dest: map_of_SomeD)

lemma mb_Lookup:
  assumes "mb_inv m"
  shows "MB_Lookup m j = Inr (mlk m j)"
proof -
  from assms have wf: "wf_block (Current m)" and ok: "blocks_ok (Blocks m)"
    by (simp_all add: mb_inv_def accum_def)
  show ?thesis
    using wf_Lookup[OF wf lo_le[of j]] blocks_ok_map_of[OF ok, of "hi j"] wf_Lookup[OF _ lo_le[of j]]
    by (auto simp: MB_Lookup_alt mlk_def blocks_lk_def split: option.splits)
qed

lemma set_update_cases:
  "(k', b') \<in> set (AList.update k b al) \<Longrightarrow> (k', b') = (k, b) \<or> (k', b') \<in> set al"
  by (induction al) (auto split: if_splits)

lemma blocks_ok_update: "blocks_ok bs \<Longrightarrow> wf_block b \<Longrightarrow> Frozen b \<Longrightarrow> blocks_ok (AList.update k b bs)"
  unfolding blocks_ok_def by (auto dest: set_update_cases)

lemma blocks_ok_delete: "blocks_ok bs \<Longrightarrow> blocks_ok (AList.delete k bs)"
  unfolding blocks_ok_def by (auto simp: AList.delete_eq)

lemma MB_Append_step:
  assumes "mb_inv m" "LastId m \<le> i" "v \<le> 0xFFFF"
  shows "\<exists>m'. MB_Append m i v = Inr m' \<and> mb_inv m' \<and> LastId m' = i
           \<and> (\<forall>j. mlk m' j = (if j = i then mlk m j OR v else mlk m j))"
proof (cases "i = LastId m")
  case True
  define m' where "m' = m\<lparr>LastVal := LastVal m OR v\<rparr>"
  have a: "MB_Append m i v = Inr m'"
    using True assms(3) by (simp add: MB_Append_alt m'_def not_gt_mask)
  have "LastVal m OR v \<le> 0xFFFF"
    using assms(1,3) le_mask16_and[of "LastVal m"] le_mask16_and[of v]
          and_mask16_le[of "LastVal m OR v"]
    by (simp add: mb_inv_def mask16 bit.conj_disj_distrib2)
  moreover have "lk (Current m) (lo (LastId m)) OR (LastVal m OR v) = LastVal m OR v"
    using assms(1) by (simp add: mb_inv_def or.assoc[symmetric])
  ultimately have inv: "mb_inv m'" using assms(1) by (simp add: mb_inv_def m'_def)
  have "mlk m' j = (if j = i then mlk m j OR v else mlk m j)" for j
    using True by (simp add: mlk_def m'_def)
  with a inv True show ?thesis by (simp add: m'_def)
next
  case False
  with assms(2) have lt: "LastId m < i" by simp
  from assms(1) have acc: "accum (Current m)" and lv: "LastVal m \<le> 0xFFFF"
    and bl: "below (Current m) (lo (LastId m))"
    and above: "\<forall>j \<le> 0xFFFF. lo (LastId m) < j \<longrightarrow> lk (Current m) j = 0"
    and sub: "lk (Current m) (lo (LastId m)) OR LastVal m = LastVal m"
    and ok: "blocks_ok (Blocks m)"
    and keys: "\<forall>k\<in>fst ` set (Blocks m). k < hi (LastId m)"
    by (simp_all add: mb_inv_def)
  from Append_step[OF acc lo_le lv bl] obtain cur where
    ap: "Append (Current m) (lo (LastId m)) (LastVal m) = Inr cur" and acc': "accum cur"
    and lk': "\<forall>j \<le> 0xFFFF. lk cur j = (if j = lo (LastId m) then lk (Current m) j OR LastVal m else lk (Current m) j)"
    and bl': "\<forall>i'. lo (LastId m) < i' \<longrightarrow> below cur i'" by blast
  have lkc: "lk cur (lo j) = (if lo j = lo (LastId m) then LastVal m else lk (Current m) (lo j))" for j
    using lk' lo_le[of j] sub by simp
  show ?thesis
  proof (cases "hi i = hi (LastId m)")
    case True
    define m' where "m' = m\<lparr>Current := cur, LastId := i, LastVal := v\<rparr>"
    have a: "MB_Append m i v = Inr m'"
      using lt True assms(3) ap by (simp add: MB_Append_alt m'_def not_gt_mask)
    have lol: "lo (LastId m) < lo i" using True lt hi_lo_less[of "LastId m" i] by simp
    have z: "lk (Current m) (lo i) = 0" using above lol lo_le[of i] by simp
    from lol have lne: "lo i \<noteq> lo (LastId m)" by auto
    have zc: "lk cur (lo i) = 0" using lkc[of i] lne z by simp
    have ab': "\<forall>j \<le> 0xFFFF. lo i < j \<longrightarrow> lk cur j = 0"
      using lk' above lol by auto
    have inv: "mb_inv m'"
      using acc' assms(3) bl' lol ab' zc ok keys True
      by (simp add: mb_inv_def m'_def)
    have "mlk m' j = (if j = i then mlk m j OR v else mlk m j)" for j
    proof (cases "j = i")
      case True
      then show ?thesis using lt \<open>hi i = hi (LastId m)\<close> z by (simp add: mlk_def m'_def)
    next
      case ne: False
      show ?thesis
      proof (cases "hi j = hi (LastId m)")
        case True
        then show ?thesis
          using ne \<open>hi i = hi (LastId m)\<close> lkc[of j] hi_lo_eq[of j "LastId m"]
          by (auto simp: mlk_def m'_def)
      next
        case False
        then show ?thesis using ne \<open>hi i = hi (LastId m)\<close> by (auto simp: mlk_def m'_def)
      qed
    qed
    with a inv show ?thesis by (auto simp: m'_def)
  next
    case False
    from acc' have nf: "\<not> Frozen cur" and len: "length (Values cur) = BLOCK_FULL_LENGTH"
      and wfc: "wf_block cur" by (simp_all add: accum_def)
    from Reset_accum[OF nf len] obtain cur0 where
      rs: "Reset cur = Inr cur0" and acc0: "accum cur0" and z0: "\<forall>j. lk cur0 j = 0"
      and bl0: "\<forall>i. below cur0 i" by blast
    define m' where "m' = m\<lparr>Blocks := AList.update (hi (LastId m)) (Copy cur) (Blocks m),
                           Current := cur0, LastId := i, LastVal := v\<rparr>"
    have a: "MB_Append m i v = Inr m'"
      using lt False assms(3) ap rs by (simp add: MB_Append_alt m'_def not_gt_mask)
    from Copy_wf[OF wfc] have cp: "wf_block (Copy cur)" "Frozen (Copy cur)" "\<forall>j. lk (Copy cur) j = lk cur j"
      by simp_all
    have hlt: "hi (LastId m) < hi i" using False hi_mono[of "LastId m" i] lt by simp
    have keys': "\<forall>k\<in>fst ` set (Blocks m'). k < hi i"
      using keys hlt by (auto simp: m'_def dom_update)
    have inv: "mb_inv m'"
      using acc0 assms(3) bl0 z0 blocks_ok_update[OF ok cp(1,2)] keys'
      by (simp add: mb_inv_def) (simp add: m'_def)
    have none: "map_of (Blocks m) k = None" if "hi (LastId m) \<le> k" for k
      using keys that by (force simp: map_of_eq_None_iff)
    have "mlk m' j = (if j = i then mlk m j OR v else mlk m j)" for j
    proof (cases "j = i")
      case True
      then show ?thesis using lt False none[of "hi i"] hlt
        by (simp add: mlk_def m'_def blocks_lk_def)
    next
      case ne: False
      show ?thesis
      proof (cases "hi j = hi i")
        case True
        then show ?thesis using ne none[of "hi i"] hlt z0
          by (auto simp: mlk_def m'_def blocks_lk_def)
      next
        case nh: False
        show ?thesis
        proof (cases "hi j = hi (LastId m)")
          case True
          then show ?thesis
            using ne nh lkc[of j] cp(3) hi_lo_eq[of j "LastId m"]
            by (auto simp: mlk_def m'_def blocks_lk_def update_conv')
        next
          case False
          then show ?thesis
            using ne nh by (auto simp: mlk_def m'_def blocks_lk_def update_conv')
        qed
      qed
    qed
    with a inv show ?thesis by (auto simp: m'_def)
  qed
qed

section \<open>MultiBlock: runs of appends, unPushCurrent\<close>


lemma NewAccumulationBlock_accum:
  "accum NewAccumulationBlock \<and> Length NewAccumulationBlock = 0
     \<and> (\<forall>j. lk NewAccumulationBlock j = 0) \<and> (\<forall>i. below NewAccumulationBlock i)"
  by (simp add: NewAccumulationBlock_def accum_def wf_block_def entries_def lk_def below_def)

lemma mb_inv_New: "mb_inv NewMultiBlock"
  using NewAccumulationBlock_accum
  by (simp add: mb_inv_def NewMultiBlock_def blocks_ok_def)

lemma mlk_New: "mlk NewMultiBlock j = 0"
  using NewAccumulationBlock_accum
  by (simp add: mlk_def NewMultiBlock_def blocks_lk_def)

lemma MB_Appends_step:
  assumes "mb_inv m" "sorted (map fst ps)" "\<forall>(i, v)\<in>set ps. LastId m \<le> i \<and> v \<le> 0xFFFF"
  shows "\<exists>m'. MB_Appends m ps = Inr m' \<and> mb_inv m'
           \<and> LastId m' = (if ps = [] then LastId m else fst (last ps))
           \<and> (\<forall>j. mlk m' j = mlk m j OR or_vals ps j)"
  using assms
proof (induction ps arbitrary: m)
  case Nil
  then show ?case by simp
next
  case (Cons p ps)
  obtain i v where p: "p = (i, v)" by (cases p)
  with Cons.prems have iv: "LastId m \<le> i" "v \<le> 0xFFFF" by auto
  from MB_Append_step[OF Cons.prems(1) iv] obtain m1 where
    a: "MB_Append m i v = Inr m1" and inv1: "mb_inv m1" and l1: "LastId m1 = i"
    and lk1: "\<forall>j. mlk m1 j = (if j = i then mlk m j OR v else mlk m j)" by blast
  from Cons.prems(2) p have s: "sorted (map fst ps)" and ge: "\<forall>k\<in>set (map fst ps). i \<le> k" by auto
  from ge Cons.prems(3) l1 have b: "\<forall>(k, v)\<in>set ps. LastId m1 \<le> k \<and> v \<le> 0xFFFF" by auto
  from Cons.IH[OF inv1 s b] obtain m' where
    r: "MB_Appends m1 ps = Inr m'" "mb_inv m'" "LastId m' = (if ps = [] then LastId m1 else fst (last ps))"
    and lk': "\<forall>j. mlk m' j = mlk m1 j OR or_vals ps j" by blast
  have "mlk m' j = mlk m j OR or_vals (p # ps) j" for j
    using lk' lk1 p by (simp add: or.assoc)
  with a r l1 p show ?case by simp
qed

lemma sorted_last_max: "sorted (xs :: int list) \<Longrightarrow> x \<in> set xs \<Longrightarrow> x \<le> last xs"
  by (induction xs) (auto split: if_splits)

lemma last_sort_max:
  assumes "ks \<noteq> []"
  shows "last (sort (ks :: int list)) \<in> set ks \<and> (\<forall>k\<in>set ks. k \<le> last (sort ks))"
proof -
  have ne: "sort ks \<noteq> []" using assms by (metis length_sort length_0_conv)
  then have "last (sort ks) \<in> set (sort ks)" by (rule last_in_set)
  moreover have "\<forall>k\<in>set (sort ks). k \<le> last (sort ks)"
    using sorted_last_max[of "sort ks"] by simp
  ultimately show ?thesis by simp
qed

lemma unPushCurrent_alt:
  "Blocks m \<noteq> [] \<Longrightarrow>
   unPushCurrent m =
     (case map_of (Blocks m) (last (sort (map fst (Blocks m)))) of
        None \<Rightarrow> Inl NilBlock
      | Some lastBlock \<Rightarrow>
          (case CopyFrom (Current m) lastBlock of
             Inl e \<Rightarrow> Inl e
           | Inr cur \<Rightarrow>
               (case UnAppend cur of
                  Inl e \<Rightarrow> Inl e
                | Inr (cur', lastIdx, lastVal) \<Rightarrow>
                    Inr (m\<lparr>Blocks := AList.delete (last (sort (map fst (Blocks m)))) (Blocks m),
                           Current := cur',
                           LastId := push_bit 16 (last (sort (map fst (Blocks m)))) OR uint lastIdx,
                           LastVal := lastVal\<rparr>))))"
proof -
  assume ne: "Blocks m \<noteq> []"
  then have n: "sortedBlockKeys m \<noteq> []"
    unfolding sortedBlockKeys_def by (metis length_sort length_0_conv map_is_Nil_conv)
  then have e: "sortedBlockKeys m ! (length (sortedBlockKeys m) - 1)
                  = last (sort (map fst (Blocks m)))"
    by (simp add: last_conv_nth sortedBlockKeys_def)
  from n have p: "length (sortedBlockKeys m) > 0" by simp
  show ?thesis unfolding unPushCurrent_def Let_def e using p by simp
qed

lemma unPushCurrent_step:
  assumes "blocks_ok (Blocks m)" "Blocks m \<noteq> []" "\<not> Frozen (Current m)"
    "length (Values (Current m)) = BLOCK_FULL_LENGTH"
  shows "\<exists>m2. unPushCurrent m = Inr m2 \<and> mb_inv m2 \<and> (\<forall>j. mlk m2 j = blocks_lk (Blocks m) j)"
proof -
  define K where "K = last (sort (map fst (Blocks m)))"
  from last_sort_max[of "map fst (Blocks m)"] assms(2)
  have Kin: "K \<in> fst ` set (Blocks m)" and Kmax: "\<forall>k\<in>fst ` set (Blocks m). k \<le> K"
    by (auto simp: K_def)
  from Kin have "map_of (Blocks m) K \<noteq> None" by (simp add: map_of_eq_None_iff)
  then obtain lastBlock where mo: "map_of (Blocks m) K = Some lastBlock" by auto
  from blocks_ok_map_of[OF assms(1) mo] have wfl: "wf_block lastBlock" by simp
  from CopyFrom_accum[OF assms(3,4) wfl] obtain cur where
    cf: "CopyFrom (Current m) lastBlock = Inr cur" and acc: "accum cur"
    and lkc: "\<forall>j. lk cur j = lk lastBlock j" by blast
  from UnAppend_accum[OF acc] obtain cur' ix v where
    un: "UnAppend cur = Inr (cur', ix, v)" and acc': "accum cur'" and ix: "ix \<le> 0xFFFF"
    and v: "v \<le> 0xFFFF" and p1: "v = lk cur ix"
    and p2: "\<forall>j \<le> 0xFFFF. ix < j \<longrightarrow> lk cur j = 0"
    and p3: "\<forall>j \<le> 0xFFFF. j \<noteq> ix \<longrightarrow> lk cur' j = lk cur j"
    and p4: "lk cur' ix OR v = v" and p5: "below cur' ix" by blast
  define L where "L = push_bit 16 K OR uint ix"
  from join_hi_lo[OF ix, of K] have hl: "hi L = K" "lo L = ix" by (simp_all add: L_def)
  define m2 where "m2 = m\<lparr>Blocks := AList.delete K (Blocks m), Current := cur',
                           LastId := L, LastVal := v\<rparr>"
  have u: "unPushCurrent m = Inr m2"
    using unPushCurrent_alt[OF assms(2)] mo cf un by (simp add: K_def[symmetric] m2_def L_def)
  have keys: "\<forall>k\<in>fst ` set (AList.delete K (Blocks m)). k < K"
  proof
    fix k assume k: "k \<in> fst ` set (AList.delete K (Blocks m))"
    then have "k \<in> fst ` set (Blocks m)" using dom_delete_subset[of K "Blocks m"] by blast
    with Kmax have "k \<le> K" by blast
    moreover from k have "k \<noteq> K" using delete_notin_dom[of K "Blocks m"] by blast
    ultimately show "k < K" by simp
  qed
  have ab: "\<forall>j \<le> 0xFFFF. ix < j \<longrightarrow> lk cur' j = 0"
    using p2 p3 by auto
  have inv: "mb_inv m2"
    using acc' v p5 ab p4 blocks_ok_delete[OF assms(1)] keys hl
    by (simp add: mb_inv_def m2_def)
  have "mlk m2 j = blocks_lk (Blocks m) j" for j
  proof (cases "hi j = K")
    case True
    show ?thesis
    proof (cases "j = L")
      case True
      then show ?thesis using hl mo p1 lkc by (simp add: mlk_def m2_def blocks_lk_def)
    next
      case False
      with True hl hi_lo_eq[of j L] have "lo j \<noteq> ix" by auto
      with p3 lo_le[of j] lkc have "lk cur' (lo j) = lk lastBlock (lo j)" by simp
      with True False hl mo show ?thesis by (simp add: mlk_def m2_def blocks_lk_def)
    qed
  next
    case False
    then have "j \<noteq> L" using hl by auto
    with False hl show ?thesis by (simp add: mlk_def m2_def blocks_lk_def delete_conv')
  qed
  with u inv show ?thesis by blast
qed

section \<open>MultiBlock: pushCurrent, then unPushCurrent\<close>


lemma pushCurrent_alt:
  "pushCurrent m =
     (case Append (Current m) (lo (LastId m)) (LastVal m) of
        Inl e \<Rightarrow> Inl e
      | Inr cur \<Rightarrow>
          (case Reset cur of
             Inl e \<Rightarrow> Inl e
           | Inr cur' \<Rightarrow>
               Inr (m\<lparr>Blocks := AList.update (hi (LastId m)) (Copy cur) (Blocks m),
                      Current := cur', LastId := maxLastId, LastVal := 0\<rparr>)))"
  by (auto simp: pushCurrent_def lo_def hi_def Let_def split: sum.splits)

lemma pushCurrent_step:
  assumes "mb_inv m"
  shows "\<exists>m1. pushCurrent m = Inr m1 \<and> blocks_ok (Blocks m1) \<and> Blocks m1 \<noteq> []
           \<and> \<not> Frozen (Current m1) \<and> length (Values (Current m1)) = BLOCK_FULL_LENGTH
           \<and> fst ` set (Blocks m1) = insert (hi (LastId m)) (fst ` set (Blocks m))
           \<and> (\<forall>j. blocks_lk (Blocks m1) j = mlk m j)"
proof -
  from assms have acc: "accum (Current m)" and lv: "LastVal m \<le> 0xFFFF"
    and bl: "below (Current m) (lo (LastId m))"
    and sub: "lk (Current m) (lo (LastId m)) OR LastVal m = LastVal m"
    and ok: "blocks_ok (Blocks m)"
    by (simp_all add: mb_inv_def)
  from Append_step[OF acc lo_le lv bl] obtain cur where
    ap: "Append (Current m) (lo (LastId m)) (LastVal m) = Inr cur" and acc': "accum cur"
    and lk': "\<forall>j \<le> 0xFFFF. lk cur j = (if j = lo (LastId m) then lk (Current m) j OR LastVal m else lk (Current m) j)"
    by blast
  have lkc: "lk cur (lo j) = (if lo j = lo (LastId m) then LastVal m else lk (Current m) (lo j))" for j
    using lk' lo_le[of j] sub by simp
  from acc' have nf: "\<not> Frozen cur" and len: "length (Values cur) = BLOCK_FULL_LENGTH"
    and wfc: "wf_block cur" by (simp_all add: accum_def)
  from Reset_accum[OF nf len] obtain cur0 where
    rs: "Reset cur = Inr cur0" and acc0: "accum cur0" by blast
  from Copy_wf[OF wfc] have cp: "wf_block (Copy cur)" "Frozen (Copy cur)" "\<forall>j. lk (Copy cur) j = lk cur j"
    by simp_all
  define m1 where "m1 = m\<lparr>Blocks := AList.update (hi (LastId m)) (Copy cur) (Blocks m),
                      Current := cur0, LastId := maxLastId, LastVal := 0\<rparr>"
  have p: "pushCurrent m = Inr m1" using ap rs by (simp add: pushCurrent_alt m1_def)
  have "blocks_lk (Blocks m1) j = mlk m j" for j
  proof (cases "hi j = hi (LastId m)")
    case True
    then show ?thesis using lkc[of j] cp(3) hi_lo_eq[of j "LastId m"]
      by (auto simp: mlk_def m1_def blocks_lk_def update_conv')
  next
    case False
    then show ?thesis by (auto simp: mlk_def m1_def blocks_lk_def update_conv')
  qed
  moreover have "blocks_ok (Blocks m1)" using blocks_ok_update[OF ok cp(1,2)] by (simp add: m1_def)
  moreover have "fst ` set (Blocks m1) = insert (hi (LastId m)) (fst ` set (Blocks m))"
    by (simp add: m1_def dom_update)
  ultimately show ?thesis using p acc0 by (simp add: accum_def) (simp add: m1_def)
qed

lemma push_unPush:
  assumes "mb_inv m"
  shows "\<exists>m1 m2. pushCurrent m = Inr m1 \<and> unPushCurrent m1 = Inr m2 \<and> mb_inv m2
           \<and> (\<forall>j. mlk m2 j = mlk m j)"
proof -
  from pushCurrent_step[OF assms] obtain m1 where
    p: "pushCurrent m = Inr m1" and ok: "blocks_ok (Blocks m1)" and ne: "Blocks m1 \<noteq> []"
    and nf: "\<not> Frozen (Current m1)" and len: "length (Values (Current m1)) = BLOCK_FULL_LENGTH"
    and l1: "\<forall>j. blocks_lk (Blocks m1) j = mlk m j" by blast
  from unPushCurrent_step[OF ok ne nf len] obtain m2 where
    "unPushCurrent m1 = Inr m2" "mb_inv m2" "\<forall>j. mlk m2 j = blocks_lk (Blocks m1) j" by blast
  with p l1 show ?thesis by simp
qed

section \<open>Iterators\<close>


declare next_scan.simps [simp del]

lemma next_cell_eq:
  assumes "n0 = 2 * j" "n1 = 2 * j + 1"
  shows "next_cell (vs ! j) j cur [0, 1] =
     (if cell vs n0 > 0 \<and> n0 > cur then Some n0
      else if cell vs n1 > 0 \<and> n1 > cur then Some n1
      else None)"
proof -
  have a1: "push_bit 1 j OR (1 :: nat) = n1" and a0: "push_bit 1 j OR (0 :: nat) = n0"
    using assms nat_cell_index[of j] by simp_all
  have c1: "drop_bit (1 * 16) (vs ! j) AND 0xFFFF = cell vs n1"
    and c0: "drop_bit (0 * 16) (vs ! j) AND 0xFFFF = cell vs n0"
    using assms cell_odd[of vs j] cell_even[of vs j] by simp_all
  show ?thesis
    by (simp only: next_cell.simps Let_def a1 a0 c1 c0)
qed

lemma next_scan_ok:
  assumes "length vs = 32768" "cur div 2 \<le> j" "j \<le> 32768"
    "\<forall>n. cur < n \<and> n < 2 * j \<longrightarrow> cell vs n = 0" "cur < 65536"
  shows "\<exists>k'. next_scan vs cur j = Inr k' \<and> cur < k' \<and> k' \<le> 65536
           \<and> (\<forall>n. cur < n \<and> n < k' \<longrightarrow> cell vs n = 0)"
  using assms
proof (induction "32768 - j" arbitrary: j rule: less_induct)
  case less
  show ?case
  proof (cases "j < 32768")
    case False
    with less.prems have j: "j = 32768" by simp
    have "next_scan vs cur j = Inr 65536" using j by (subst next_scan.simps) simp
    moreover note less.prems(5)
    ultimately show ?thesis using less.prems(4,5) j by simp
  next
    case True
    define n0 where "n0 = 2 * j"
    define n1 where "n1 = 2 * j + 1"
    note nc = next_cell_eq[OF n0_def n1_def, of vs cur]
    have dv: "n1 div 2 = j" "n0 div 2 = j" by (simp_all add: n1_def n0_def)
    have le: "n0 < 65536" "n1 < 65536" using True by (simp_all add: n0_def n1_def)
    have n01: "n0 < n1" by (simp add: n0_def n1_def)
    have below0: "\<forall>n. cur < n \<and> n < n0 \<longrightarrow> cell vs n = 0"
      using less.prems(4) by (simp add: n0_def)
    have step: "next_scan vs cur j =
        (if vs ! j > 0 then (case next_cell (vs ! j) j cur [0, 1] of Some ii \<Rightarrow> Inr ii
            | None \<Rightarrow> next_scan vs cur (j + 1)) else next_scan vs cur (j + 1))"
      using True less.prems(1) by (subst next_scan.simps) simp
    have rec: "\<exists>k'. next_scan vs cur (j + 1) = Inr k' \<and> cur < k' \<and> k' \<le> 65536
           \<and> (\<forall>n. cur < n \<and> n < k' \<longrightarrow> cell vs n = 0)"
      if z: "\<forall>n. cur < n \<and> n < 2 * (j + 1) \<longrightarrow> cell vs n = 0"
      using less.hyps[of "j + 1"] True less.prems(1,2,5) z by simp
    have zz: "\<forall>n. cur < n \<and> n < 2 * (j + 1) \<longrightarrow> cell vs n = 0"
      if z0: "cur < n0 \<longrightarrow> cell vs n0 = 0" and z1: "cur < n1 \<longrightarrow> cell vs n1 = 0"
    proof (intro allI impI)
      fix n assume n: "cur < n \<and> n < 2 * (j + 1)"
      then have "n < n0 \<or> n = n0 \<or> n = n1" unfolding n0_def n1_def by arith
      then show "cell vs n = 0" using below0 z0 z1 n by auto
    qed
    show ?thesis
    proof (cases "vs ! j > 0")
      case False
      then have "vs ! j = 0" by (simp add: word_gt_0)
      then have "cell vs n0 = 0" "cell vs n1 = 0"
        using cell_of_zero_word[of vs n0] cell_of_zero_word[of vs n1] dv by simp_all
      with rec[OF zz] False step show ?thesis by simp
    next
      case nz: True
      show ?thesis
      proof (cases "cell vs n0 > 0 \<and> n0 > cur")
        case True
        then have "next_scan vs cur j = Inr n0" using nz by (simp only: step nc) simp
        with True below0 le show ?thesis by simp
      next
        case f0: False
        then have z0: "cur < n0 \<longrightarrow> cell vs n0 = 0" by (auto simp: word_gt_0)
        show ?thesis
        proof (cases "cell vs n1 > 0 \<and> n1 > cur")
          case True
          then have ns: "next_scan vs cur j = Inr n1" using nz f0 by (simp only: step nc) auto
          have "\<forall>n. cur < n \<and> n < n1 \<longrightarrow> cell vs n = 0"
          proof (intro allI impI)
            fix n assume n: "cur < n \<and> n < n1"
            then have "n < n0 \<or> n = n0" unfolding n0_def n1_def by arith
            then show "cell vs n = 0" using below0 z0 n by auto
          qed
          with ns True le show ?thesis by simp
        next
          case f1: False
          then have z1: "cur < n1 \<longrightarrow> cell vs n1 = 0" by (auto simp: word_gt_0)
          have "next_scan vs cur j = next_scan vs cur (j + 1)"
            using nz f0 f1 by (simp only: step nc) auto
          with rec[OF zz[OF z0 z1]] show ?thesis by simp
        qed
      qed
    qed
  qed
qed



lemma wf_Length_le: "wf_block b \<Longrightarrow> Length b \<le> 65536"
  by (auto simp: wf_block_def split: if_splits)

lemma it_Valid:
  assumes "wf_block b" "k \<le> Length b"
  shows "Valid \<lparr>block = b, idx = k\<rparr> \<longleftrightarrow> k < Length b"
proof -
  from wf_Length_le[OF assms(1)] assms(2) have "k < 2 ^ 32" by simp
  then show ?thesis by (simp add: Valid_def)
qed

lemma rest_0: "wf_block b \<Longrightarrow> rest b 0 j = lk b j"
  by (simp add: rest_def lk_def)

lemma rest_end:
  assumes "wf_block b" "Length b \<le> k" "j \<le> 0xFFFF"
  shows "rest b k j = 0"
proof (cases "Length b > BLOCK_FULL_LENGTH")
  case True
  with assms(1) have "Length b = 65536" by (simp add: wf_block_def)
  with assms(2) unat_le_mask[OF assms(3)] True show ?thesis by (simp add: rest_def)
next
  case False
  with assms(1) have "length (entries b) = Length b" by (simp add: wf_block_def entries_def)
  with assms(2) False show ?thesis by (simp add: rest_def)
qed

lemma it_step_array:
  assumes "wf_block b" "k < Length b" "Length b > BLOCK_FULL_LENGTH"
  shows "Index \<lparr>block = b, idx = k\<rparr> = Inr (it_index b k)
       \<and> Value \<lparr>block = b, idx = k\<rparr> = Inr (rest b k (it_index b k))
       \<and> it_index b k \<le> 0xFFFF \<and> rest b k (it_index b k) \<le> 0xFFFF
       \<and> (\<exists>k'. Next \<lparr>block = b, idx = k\<rparr> = Inr \<lparr>block = b, idx = k'\<rparr> \<and> k < k' \<and> k' \<le> Length b
             \<and> (\<forall>j \<le> 0xFFFF. rest b k' j = (if j = it_index b k then 0 else rest b k j))
             \<and> (k' < Length b \<longrightarrow> it_index b k < it_index b k'))"
proof -
  from assms have L: "Length b = 65536" and len: "length (Values b) = 32768"
    by (simp_all add: wf_block_def)
  from assms(2) L have k: "k < 65536" by simp
  have uk: "unat (word_of_nat k :: uint32) = k" using k by (rule unat_uint32_of_nat)
  have ii: "it_index b k = word_of_nat k" using assms(3) by (simp add: it_index_def)
  have ile: "it_index b k \<le> 0xFFFF" using uk k by (simp only: ii word_le_nat_alt) simp
  have r: "rest b k (it_index b k) = cell (Values b) k" using assms(3) uk by (simp add: rest_def ii)
  have rle: "rest b k (it_index b k) \<le> 0xFFFF" by (simp add: r cell_def and_mask16_le)
  have i: "Index \<lparr>block = b, idx = k\<rparr> = Inr (it_index b k)"
    using assms(3) by (simp add: Index_def ii)
  have hl: "unat ((word_of_nat k :: uint32) AND 1) = k mod 2" using unat_hilo[of "word_of_nat k"] uk by simp
  have d: "drop_bit (Suc 0) k = k div 2" by (simp add: drop_bit_eq_div)
  have v: "Value \<lparr>block = b, idx = k\<rparr> = Inr (rest b k (it_index b k))"
    using assms(3) k len hl d by (simp add: Value_def Let_def r cell_def mult.commute)
  have vac: "\<forall>n. k < n \<and> n < 2 * (k div 2) \<longrightarrow> cell (Values b) n = 0" by auto
  have kd: "k div 2 \<le> 32768" using k by simp
  from next_scan_ok[OF len _ kd vac k] obtain k' where
    ns: "next_scan (Values b) k (k div 2) = Inr k'" and kk: "k < k'" "k' \<le> 65536"
    and z: "\<forall>n. k < n \<and> n < k' \<longrightarrow> cell (Values b) n = 0" by auto
  have n: "Next \<lparr>block = b, idx = k\<rparr> = Inr \<lparr>block = b, idx = k'\<rparr>"
    using assms(3) ns d by (simp add: Next_def)
  have rr: "rest b k' j = (if j = it_index b k then 0 else rest b k j)" if j: "j \<le> 0xFFFF" for j
  proof -
    have e: "(j = it_index b k) = (unat j = k)" using uk by (auto simp: ii word_unat_eq_iff)
    show ?thesis
    proof (cases "unat j \<le> k")
      case True
      then show ?thesis using assms(3) kk e by (auto simp: rest_def)
    next
      case False
      then show ?thesis using assms(3) kk e z by (auto simp: rest_def)
    qed
  qed
  have asc: "it_index b k < it_index b k'" if "k' < Length b"
  proof -
    from that L have "unat (word_of_nat k' :: uint32) = k'" by (simp add: unat_uint32_of_nat)
    then show ?thesis using kk uk assms(3) by (simp add: it_index_def word_less_nat_alt)
  qed
  from i v ile rle n kk L rr asc show ?thesis by auto
qed

lemma it_step_pairs:
  assumes "wf_block b" "k < Length b" "Length b \<le> BLOCK_FULL_LENGTH"
  shows "Index \<lparr>block = b, idx = k\<rparr> = Inr (it_index b k)
       \<and> Value \<lparr>block = b, idx = k\<rparr> = Inr (rest b k (it_index b k))
       \<and> it_index b k \<le> 0xFFFF \<and> rest b k (it_index b k) \<le> 0xFFFF
       \<and> (\<exists>k'. Next \<lparr>block = b, idx = k\<rparr> = Inr \<lparr>block = b, idx = k'\<rparr> \<and> k < k' \<and> k' \<le> Length b
             \<and> (\<forall>j \<le> 0xFFFF. rest b k' j = (if j = it_index b k then 0 else rest b k j))
             \<and> (k' < Length b \<longrightarrow> it_index b k < it_index b k'))"
proof -
  from assms have Ll: "Length b \<le> length (Values b)"
    and s: "sorted_wrt (<) (map fst (entries b))" by (simp_all add: wf_block_def)
  from assms(2) Ll have kl: "k < length (Values b)" by simp
  have le: "length (entries b) = Length b" using Ll by (simp add: entries_def)
  have ek: "entries b ! k = (drop_bit 16 (Values b ! k), Values b ! k AND 0xFFFF)"
    using assms(2) kl by (simp add: entries_def unpack_def)
  have ii: "it_index b k = drop_bit 16 (Values b ! k)" using assms(3) by (simp add: it_index_def)
  have dr: "drop k (entries b) = (it_index b k, Values b ! k AND 0xFFFF) # drop (Suc k) (entries b)"
    using assms(2) le ek ii by (metis Cons_nth_drop_Suc)
  have gt: "\<forall>x\<in>fst ` set (drop (Suc k) (entries b)). it_index b k < x"
  proof -
    from s have "sorted_wrt (<) (drop k (map fst (entries b)))" by (rule sorted_wrt_drop)
    then show ?thesis by (simp add: drop_map dr)
  qed
  then have ni: "it_index b k \<notin> fst ` set (drop (Suc k) (entries b))" by auto
  have r: "rest b k (it_index b k) = Values b ! k AND 0xFFFF"
    using assms(3) ni by (simp add: rest_def dr)
  have i: "Index \<lparr>block = b, idx = k\<rparr> = Inr (it_index b k)"
    using assms(3) kl by (simp add: Index_def ii)
  have v: "Value \<lparr>block = b, idx = k\<rparr> = Inr (rest b k (it_index b k))"
    using assms(3) kl by (simp add: Value_def r)
  have n: "Next \<lparr>block = b, idx = k\<rparr> = Inr \<lparr>block = b, idx = Suc k\<rparr>"
    using assms(3) by (simp add: Next_def)
  have rr: "rest b (Suc k) j = (if j = it_index b k then 0 else rest b k j)" for j
    using assms(3) ni by (auto simp: rest_def dr last_val_notin)
  have asc: "it_index b k < it_index b (Suc k)" if "Suc k < Length b"
  proof -
    from that le have "entries b ! Suc k \<in> set (drop (Suc k) (entries b))"
      by (metis Cons_nth_drop_Suc list.set_intros(1))
    then have "fst (entries b ! Suc k) \<in> fst ` set (drop (Suc k) (entries b))" by (rule imageI)
    with gt have "it_index b k < fst (entries b ! Suc k)" by blast
    moreover have "fst (entries b ! Suc k) = it_index b (Suc k)"
      using that Ll assms(3) by (simp add: entries_def unpack_def it_index_def)
    ultimately show ?thesis by simp
  qed
  have "it_index b k \<le> 0xFFFF" "rest b k (it_index b k) \<le> 0xFFFF"
    by (simp_all only: r and_mask16_le) (simp add: ii key_le)
  with i v n rr asc assms(2) show ?thesis by auto
qed

lemma it_step:
  assumes "wf_block b" "k < Length b"
  shows "Index \<lparr>block = b, idx = k\<rparr> = Inr (it_index b k)
       \<and> Value \<lparr>block = b, idx = k\<rparr> = Inr (rest b k (it_index b k))
       \<and> it_index b k \<le> 0xFFFF \<and> rest b k (it_index b k) \<le> 0xFFFF
       \<and> (\<exists>k'. Next \<lparr>block = b, idx = k\<rparr> = Inr \<lparr>block = b, idx = k'\<rparr> \<and> k < k' \<and> k' \<le> Length b
             \<and> (\<forall>j \<le> 0xFFFF. rest b k' j = (if j = it_index b k then 0 else rest b k j))
             \<and> (k' < Length b \<longrightarrow> it_index b k < it_index b k'))"
  using it_step_array[OF assms] it_step_pairs[OF assms] by (cases "Length b > BLOCK_FULL_LENGTH") auto

section \<open>ResetAndMergeFrom\<close>


lemma or_le_mask: "(a :: uint32) \<le> 0xFFFF \<Longrightarrow> b \<le> 0xFFFF \<Longrightarrow> a OR b \<le> 0xFFFF"
  using le_mask16_and[of a] le_mask16_and[of b] and_mask16_le[of "a OR b"]
  by (simp add: mask16 bit.conj_disj_distrib2)

lemma take_from_ok:
  assumes "wf_block b" "k < Length b" "accum c" "below c (it_index b k)"
  shows "\<exists>c' k'. take_from c \<lparr>block = b, idx = k\<rparr> = Inr (c', \<lparr>block = b, idx = k'\<rparr>)
     \<and> accum c' \<and> k < k' \<and> k' \<le> Length b
     \<and> (\<forall>j \<le> 0xFFFF. lk c' j OR rest b k' j = lk c j OR rest b k j)
     \<and> (\<forall>i'. it_index b k < i' \<longrightarrow> below c' i')
     \<and> (k' < Length b \<longrightarrow> it_index b k < it_index b k')"
proof -
  from it_step[OF assms(1,2)] obtain k' where
    i: "Index \<lparr>block = b, idx = k\<rparr> = Inr (it_index b k)"
    and v: "Value \<lparr>block = b, idx = k\<rparr> = Inr (rest b k (it_index b k))"
    and ile: "it_index b k \<le> 0xFFFF" and vle: "rest b k (it_index b k) \<le> 0xFFFF"
    and n: "Next \<lparr>block = b, idx = k\<rparr> = Inr \<lparr>block = b, idx = k'\<rparr>" and kk: "k < k'" "k' \<le> Length b"
    and rr: "\<forall>j \<le> 0xFFFF. rest b k' j = (if j = it_index b k then 0 else rest b k j)"
    and asc: "k' < Length b \<longrightarrow> it_index b k < it_index b k'" by blast
  from Append_step[OF assms(3) ile vle assms(4)] obtain c' where
    a: "Append c (it_index b k) (rest b k (it_index b k)) = Inr c'" and acc: "accum c'"
    and l: "\<forall>j \<le> 0xFFFF. lk c' j = (if j = it_index b k then lk c j OR rest b k (it_index b k) else lk c j)"
    and bl: "\<forall>i'. it_index b k < i' \<longrightarrow> below c' i'" by blast
  have t: "take_from c \<lparr>block = b, idx = k\<rparr> = Inr (c', \<lparr>block = b, idx = k'\<rparr>)"
    using i v a n by (simp add: take_from_def)
  have "\<forall>j \<le> 0xFFFF. lk c' j OR rest b k' j = lk c j OR rest b k j"
    using l rr by auto
  with t acc kk bl asc show ?thesis by blast
qed

lemma take_both_ok:
  assumes "wf_block b1" "k1 < Length b1" "wf_block b2" "k2 < Length b2"
    "it_index b1 k1 = it_index b2 k2" "accum c" "below c (it_index b1 k1)"
  shows "\<exists>c' k1' k2'. take_both c \<lparr>block = b1, idx = k1\<rparr> \<lparr>block = b2, idx = k2\<rparr>
          = Inr (c', \<lparr>block = b1, idx = k1'\<rparr>, \<lparr>block = b2, idx = k2'\<rparr>)
     \<and> accum c' \<and> k1 < k1' \<and> k1' \<le> Length b1 \<and> k2 < k2' \<and> k2' \<le> Length b2
     \<and> (\<forall>j \<le> 0xFFFF. lk c' j OR rest b1 k1' j OR rest b2 k2' j
                        = lk c j OR rest b1 k1 j OR rest b2 k2 j)
     \<and> (\<forall>i'. it_index b1 k1 < i' \<longrightarrow> below c' i')
     \<and> (k1' < Length b1 \<longrightarrow> it_index b1 k1 < it_index b1 k1')
     \<and> (k2' < Length b2 \<longrightarrow> it_index b2 k2 < it_index b2 k2')"
proof -
  define i where "i = it_index b1 k1"
  from it_step[OF assms(1,2)] obtain k1' where
    i1: "Index \<lparr>block = b1, idx = k1\<rparr> = Inr i"
    and v1: "Value \<lparr>block = b1, idx = k1\<rparr> = Inr (rest b1 k1 i)"
    and ile: "i \<le> 0xFFFF" and v1le: "rest b1 k1 i \<le> 0xFFFF"
    and n1: "Next \<lparr>block = b1, idx = k1\<rparr> = Inr \<lparr>block = b1, idx = k1'\<rparr>" and kk1: "k1 < k1'" "k1' \<le> Length b1"
    and rr1: "\<forall>j \<le> 0xFFFF. rest b1 k1' j = (if j = i then 0 else rest b1 k1 j)"
    and asc1: "k1' < Length b1 \<longrightarrow> i < it_index b1 k1'" unfolding i_def by blast
  from it_step[OF assms(3,4)] assms(5) obtain k2' where
    v2: "Value \<lparr>block = b2, idx = k2\<rparr> = Inr (rest b2 k2 i)"
    and v2le: "rest b2 k2 i \<le> 0xFFFF"
    and n2: "Next \<lparr>block = b2, idx = k2\<rparr> = Inr \<lparr>block = b2, idx = k2'\<rparr>" and kk2: "k2 < k2'" "k2' \<le> Length b2"
    and rr2: "\<forall>j \<le> 0xFFFF. rest b2 k2' j = (if j = i then 0 else rest b2 k2 j)"
    and asc2: "k2' < Length b2 \<longrightarrow> i < it_index b2 k2'" unfolding i_def by auto
  from assms(7) have bl0: "below c i" by (simp add: i_def)
  from Append_step[OF assms(6) ile or_le_mask[OF v1le v2le] bl0] obtain c' where
    a: "Append c i (rest b1 k1 i OR rest b2 k2 i) = Inr c'" and acc: "accum c'"
    and l: "\<forall>j \<le> 0xFFFF. lk c' j = (if j = i then lk c j OR (rest b1 k1 i OR rest b2 k2 i) else lk c j)"
    and bl: "\<forall>i'. i < i' \<longrightarrow> below c' i'" by blast
  have t: "take_both c \<lparr>block = b1, idx = k1\<rparr> \<lparr>block = b2, idx = k2\<rparr>
          = Inr (c', \<lparr>block = b1, idx = k1'\<rparr>, \<lparr>block = b2, idx = k2'\<rparr>)"
    using i1 v1 v2 a n1 n2 by (simp add: take_both_def)
  have "\<forall>j \<le> 0xFFFF. lk c' j OR rest b1 k1' j OR rest b2 k2' j
                        = lk c j OR rest b1 k1 j OR rest b2 k2 j"
    using l rr1 rr2 by (auto simp: or.assoc)
  with t acc kk1 kk2 bl asc1 asc2 assms(5) show ?thesis unfolding i_def by auto
qed

lemma drain_ok:
  assumes "wf_block b" "accum c" "k \<le> Length b" "k < Length b \<longrightarrow> below c (it_index b k)"
  shows "\<exists>c'. drain_loop c \<lparr>block = b, idx = k\<rparr> = Some (Inr c') \<and> accum c'
           \<and> (k = Length b \<longrightarrow> c' = c)
           \<and> (\<forall>j \<le> 0xFFFF. lk c' j = lk c j OR rest b k j)"
  using assms(2-4)
proof (induction "Length b - k" arbitrary: c k rule: less_induct)
  case less
  show ?case
  proof (cases "k < Length b")
    case False
    with less.prems have "k = Length b" by simp
    moreover from this have "drain_loop c \<lparr>block = b, idx = k\<rparr> = Some (Inr c)"
      using it_Valid[OF assms(1), of k] by (subst drain_loop.simps) simp
    ultimately show ?thesis using less.prems(1) rest_end[OF assms(1), of k] by simp
  next
    case True
    with less.prems have bl: "below c (it_index b k)" by simp
    from take_from_ok[OF assms(1) True less.prems(1) bl] obtain c1 k1 where
      t: "take_from c \<lparr>block = b, idx = k\<rparr> = Inr (c1, \<lparr>block = b, idx = k1\<rparr>)"
      and acc: "accum c1" and kk: "k < k1" "k1 \<le> Length b"
      and g: "\<forall>j \<le> 0xFFFF. lk c1 j OR rest b k1 j = lk c j OR rest b k j"
      and bl1: "\<forall>i'. it_index b k < i' \<longrightarrow> below c1 i'"
      and asc: "k1 < Length b \<longrightarrow> it_index b k < it_index b k1" by blast
    have m: "Length b - k1 < Length b - k" using kk True by simp
    have b1: "k1 < Length b \<longrightarrow> below c1 (it_index b k1)" using bl1 asc by blast
    from less.hyps[OF m acc kk(2) b1] obtain c' where
      d: "drain_loop c1 \<lparr>block = b, idx = k1\<rparr> = Some (Inr c')" and acc': "accum c'"
      and l: "\<forall>j \<le> 0xFFFF. lk c' j = lk c1 j OR rest b k1 j" by (elim exE conjE)
    have "drain_loop c \<lparr>block = b, idx = k\<rparr> = Some (Inr c')"
      using it_Valid[OF assms(1), of k] True t d by (subst drain_loop.simps) simp
    with acc' l g True show ?thesis by simp
  qed
qed



lemma or3_cong1: "a OR b = a' OR b' \<Longrightarrow> a OR b OR c = a' OR b' OR (c :: uint32)"
  by (simp only: or.assoc[symmetric])

lemma or3_cong2: "a OR c = a' OR c' \<Longrightarrow> a OR b OR c = a' OR b OR (c' :: uint32)"
proof -
  assume e: "a OR c = a' OR c'"
  have "a OR b OR c = b OR (a OR c)" by (rule or.left_commute)
  also have "\<dots> = b OR (a' OR c')" by (simp only: e)
  also have "\<dots> = a' OR b OR c'" by (rule or.left_commute)
  finally show ?thesis .
qed

lemma merge_ok:
  assumes "wf_block b1" "wf_block b2"
    and "accum c" "k1 \<le> Length b1" "k2 \<le> Length b2"
    and "k1 < Length b1 \<longrightarrow> below c (it_index b1 k1)"
    and "k2 < Length b2 \<longrightarrow> below c (it_index b2 k2)"
  shows "\<exists>c' k1' k2'. merge_loop c \<lparr>block = b1, idx = k1\<rparr> \<lparr>block = b2, idx = k2\<rparr>
            = Some (Inr (c', \<lparr>block = b1, idx = k1'\<rparr>, \<lparr>block = b2, idx = k2'\<rparr>))
     \<and> accum c' \<and> k1' \<le> Length b1 \<and> k2' \<le> Length b2
     \<and> \<not> (k1' < Length b1 \<and> k2' < Length b2)
     \<and> (k1' < Length b1 \<longrightarrow> below c' (it_index b1 k1'))
     \<and> (k2' < Length b2 \<longrightarrow> below c' (it_index b2 k2'))
     \<and> (\<forall>j \<le> 0xFFFF. lk c' j OR rest b1 k1' j OR rest b2 k2' j
                        = lk c j OR rest b1 k1 j OR rest b2 k2 j)"
  using assms(3-7)
proof (induction "(Length b1 - k1) + (Length b2 - k2)" arbitrary: c k1 k2 rule: less_induct)
  case less
  note V1 = it_Valid[OF assms(1) less.prems(2)]
  note V2 = it_Valid[OF assms(2) less.prems(3)]
  show ?case
  proof (cases "k1 < Length b1 \<and> k2 < Length b2")
    case False
    then have "merge_loop c \<lparr>block = b1, idx = k1\<rparr> \<lparr>block = b2, idx = k2\<rparr>
            = Some (Inr (c, \<lparr>block = b1, idx = k1\<rparr>, \<lparr>block = b2, idx = k2\<rparr>))"
      using V1 V2 by (subst merge_loop.simps) auto
    with less.prems False show ?thesis by blast
  next
    case True
    then have v1: "k1 < Length b1" and v2: "k2 < Length b2" by simp_all
    with less.prems have bl1: "below c (it_index b1 k1)" and bl2: "below c (it_index b2 k2)"
      by simp_all
    define i1 where "i1 = it_index b1 k1"
    define i2 where "i2 = it_index b2 k2"
    from it_step[OF assms(1) v1] have x1: "Index \<lparr>block = b1, idx = k1\<rparr> = Inr i1"
      by (simp add: i1_def)
    from it_step[OF assms(2) v2] have x2: "Index \<lparr>block = b2, idx = k2\<rparr> = Inr i2"
      by (simp add: i2_def)
    have unfold: "merge_loop c \<lparr>block = b1, idx = k1\<rparr> \<lparr>block = b2, idx = k2\<rparr> =
        (case merge_step c \<lparr>block = b1, idx = k1\<rparr> \<lparr>block = b2, idx = k2\<rparr> of
           Inl e \<Rightarrow> Some (Inl e)
         | Inr (b', it1', it2') \<Rightarrow> merge_loop b' it1' it2')"
      using V1 V2 True by (subst merge_loop.simps) simp
    consider "i1 < i2" | "i1 = i2" | "i2 < i1" using less_linear[of i1 i2] by blast
    then show ?thesis
    proof cases
      case 1
      from take_from_ok[OF assms(1) v1 less.prems(1) bl1] obtain c1 k1' where
        t: "take_from c \<lparr>block = b1, idx = k1\<rparr> = Inr (c1, \<lparr>block = b1, idx = k1'\<rparr>)"
        and acc: "accum c1" and kk: "k1 < k1'" "k1' \<le> Length b1"
        and g: "\<forall>j \<le> 0xFFFF. lk c1 j OR rest b1 k1' j = lk c j OR rest b1 k1 j"
        and b: "\<forall>i'. i1 < i' \<longrightarrow> below c1 i'"
        and asc: "k1' < Length b1 \<longrightarrow> i1 < it_index b1 k1'" unfolding i1_def by blast
      have ms: "merge_step c \<lparr>block = b1, idx = k1\<rparr> \<lparr>block = b2, idx = k2\<rparr>
                 = Inr (c1, \<lparr>block = b1, idx = k1'\<rparr>, \<lparr>block = b2, idx = k2\<rparr>)"
        using x1 x2 1 t by (simp add: merge_step_def)
      have m: "(Length b1 - k1') + (Length b2 - k2) < (Length b1 - k1) + (Length b2 - k2)"
        using kk v1 by simp
      have p1: "k1' < Length b1 \<longrightarrow> below c1 (it_index b1 k1')" using b asc by blast
      have p2: "k2 < Length b2 \<longrightarrow> below c1 (it_index b2 k2)" using b 1 by (simp add: i2_def)
      from less.hyps[OF m acc kk(2) less.prems(3) p1 p2] obtain c' k1'' k2'' where
        r: "merge_loop c1 \<lparr>block = b1, idx = k1'\<rparr> \<lparr>block = b2, idx = k2\<rparr>
            = Some (Inr (c', \<lparr>block = b1, idx = k1''\<rparr>, \<lparr>block = b2, idx = k2''\<rparr>))"
        "accum c'" "k1'' \<le> Length b1" "k2'' \<le> Length b2"
        "\<not> (k1'' < Length b1 \<and> k2'' < Length b2)"
        "k1'' < Length b1 \<longrightarrow> below c' (it_index b1 k1'')"
        "k2'' < Length b2 \<longrightarrow> below c' (it_index b2 k2'')"
        and g': "\<forall>j \<le> 0xFFFF. lk c' j OR rest b1 k1'' j OR rest b2 k2'' j
                        = lk c1 j OR rest b1 k1' j OR rest b2 k2 j" by blast
      have "\<forall>j \<le> 0xFFFF. lk c' j OR rest b1 k1'' j OR rest b2 k2'' j
                        = lk c j OR rest b1 k1 j OR rest b2 k2 j"
      proof (intro allI impI)
        fix j :: uint32 assume j: "j \<le> 0xFFFF"
        from g j have e: "lk c1 j OR rest b1 k1' j = lk c j OR rest b1 k1 j" by simp
        from g' j have "lk c' j OR rest b1 k1'' j OR rest b2 k2'' j
                          = lk c1 j OR rest b1 k1' j OR rest b2 k2 j" by simp
        also have "\<dots> = lk c j OR rest b1 k1 j OR rest b2 k2 j" by (rule or3_cong1[OF e])
        finally show "lk c' j OR rest b1 k1'' j OR rest b2 k2'' j
                          = lk c j OR rest b1 k1 j OR rest b2 k2 j" .
      qed
      moreover have "merge_loop c \<lparr>block = b1, idx = k1\<rparr> \<lparr>block = b2, idx = k2\<rparr>
            = Some (Inr (c', \<lparr>block = b1, idx = k1''\<rparr>, \<lparr>block = b2, idx = k2''\<rparr>))"
        using unfold ms r(1) by simp
      ultimately show ?thesis using r(2-7) by - (intro exI conjI; assumption)
    next
      case 2
      from take_both_ok[OF assms(1) v1 assms(2) v2 _ less.prems(1) bl1] 2 obtain c1 k1' k2' where
        t: "take_both c \<lparr>block = b1, idx = k1\<rparr> \<lparr>block = b2, idx = k2\<rparr>
          = Inr (c1, \<lparr>block = b1, idx = k1'\<rparr>, \<lparr>block = b2, idx = k2'\<rparr>)"
        and acc: "accum c1" and kk: "k1 < k1'" "k1' \<le> Length b1" "k2 < k2'" "k2' \<le> Length b2"
        and g: "\<forall>j \<le> 0xFFFF. lk c1 j OR rest b1 k1' j OR rest b2 k2' j
                        = lk c j OR rest b1 k1 j OR rest b2 k2 j"
        and b: "\<forall>i'. i1 < i' \<longrightarrow> below c1 i'"
        and asc1: "k1' < Length b1 \<longrightarrow> i1 < it_index b1 k1'"
        and asc2: "k2' < Length b2 \<longrightarrow> i2 < it_index b2 k2'"
        unfolding i1_def i2_def by blast
      have ms: "merge_step c \<lparr>block = b1, idx = k1\<rparr> \<lparr>block = b2, idx = k2\<rparr>
                 = Inr (c1, \<lparr>block = b1, idx = k1'\<rparr>, \<lparr>block = b2, idx = k2'\<rparr>)"
        using x1 x2 2 t by (simp add: merge_step_def)
      have m: "(Length b1 - k1') + (Length b2 - k2') < (Length b1 - k1) + (Length b2 - k2)"
        using kk v1 v2 by simp
      have p1: "k1' < Length b1 \<longrightarrow> below c1 (it_index b1 k1')" using b asc1 by blast
      have p2: "k2' < Length b2 \<longrightarrow> below c1 (it_index b2 k2')" using b asc2 2 by simp
      from less.hyps[OF m acc kk(2) kk(4) p1 p2] obtain c' k1'' k2'' where
        r: "merge_loop c1 \<lparr>block = b1, idx = k1'\<rparr> \<lparr>block = b2, idx = k2'\<rparr>
            = Some (Inr (c', \<lparr>block = b1, idx = k1''\<rparr>, \<lparr>block = b2, idx = k2''\<rparr>))"
        "accum c'" "k1'' \<le> Length b1" "k2'' \<le> Length b2"
        "\<not> (k1'' < Length b1 \<and> k2'' < Length b2)"
        "k1'' < Length b1 \<longrightarrow> below c' (it_index b1 k1'')"
        "k2'' < Length b2 \<longrightarrow> below c' (it_index b2 k2'')"
        and g': "\<forall>j \<le> 0xFFFF. lk c' j OR rest b1 k1'' j OR rest b2 k2'' j
                        = lk c1 j OR rest b1 k1' j OR rest b2 k2' j" by blast
      have "\<forall>j \<le> 0xFFFF. lk c' j OR rest b1 k1'' j OR rest b2 k2'' j
                        = lk c j OR rest b1 k1 j OR rest b2 k2 j"
        using g g' by simp
      moreover have "merge_loop c \<lparr>block = b1, idx = k1\<rparr> \<lparr>block = b2, idx = k2\<rparr>
            = Some (Inr (c', \<lparr>block = b1, idx = k1''\<rparr>, \<lparr>block = b2, idx = k2''\<rparr>))"
        using unfold ms r(1) by simp
      ultimately show ?thesis using r(2-7) by - (intro exI conjI; assumption)
    next
      case 3
      from take_from_ok[OF assms(2) v2 less.prems(1) bl2] obtain c1 k2' where
        t: "take_from c \<lparr>block = b2, idx = k2\<rparr> = Inr (c1, \<lparr>block = b2, idx = k2'\<rparr>)"
        and acc: "accum c1" and kk: "k2 < k2'" "k2' \<le> Length b2"
        and g: "\<forall>j \<le> 0xFFFF. lk c1 j OR rest b2 k2' j = lk c j OR rest b2 k2 j"
        and b: "\<forall>i'. i2 < i' \<longrightarrow> below c1 i'"
        and asc: "k2' < Length b2 \<longrightarrow> i2 < it_index b2 k2'" unfolding i2_def by blast
      from 3 have n12: "\<not> i1 < i2" "i1 \<noteq> i2" by auto
      have ms: "merge_step c \<lparr>block = b1, idx = k1\<rparr> \<lparr>block = b2, idx = k2\<rparr>
                 = Inr (c1, \<lparr>block = b1, idx = k1\<rparr>, \<lparr>block = b2, idx = k2'\<rparr>)"
        using x1 x2 n12 t by (simp add: merge_step_def)
      have m: "(Length b1 - k1) + (Length b2 - k2') < (Length b1 - k1) + (Length b2 - k2)"
        using kk v2 by simp
      have p2: "k2' < Length b2 \<longrightarrow> below c1 (it_index b2 k2')" using b asc by blast
      have p1: "k1 < Length b1 \<longrightarrow> below c1 (it_index b1 k1)" using b 3 by (simp add: i1_def)
      from less.hyps[OF m acc less.prems(2) kk(2) p1 p2] obtain c' k1'' k2'' where
        r: "merge_loop c1 \<lparr>block = b1, idx = k1\<rparr> \<lparr>block = b2, idx = k2'\<rparr>
            = Some (Inr (c', \<lparr>block = b1, idx = k1''\<rparr>, \<lparr>block = b2, idx = k2''\<rparr>))"
        "accum c'" "k1'' \<le> Length b1" "k2'' \<le> Length b2"
        "\<not> (k1'' < Length b1 \<and> k2'' < Length b2)"
        "k1'' < Length b1 \<longrightarrow> below c' (it_index b1 k1'')"
        "k2'' < Length b2 \<longrightarrow> below c' (it_index b2 k2'')"
        and g': "\<forall>j \<le> 0xFFFF. lk c' j OR rest b1 k1'' j OR rest b2 k2'' j
                        = lk c1 j OR rest b1 k1 j OR rest b2 k2' j" by blast
      have "\<forall>j \<le> 0xFFFF. lk c' j OR rest b1 k1'' j OR rest b2 k2'' j
                        = lk c j OR rest b1 k1 j OR rest b2 k2 j"
      proof (intro allI impI)
        fix j :: uint32 assume j: "j \<le> 0xFFFF"
        from g j have e: "lk c1 j OR rest b2 k2' j = lk c j OR rest b2 k2 j" by simp
        from g' j have "lk c' j OR rest b1 k1'' j OR rest b2 k2'' j
                          = lk c1 j OR rest b1 k1 j OR rest b2 k2' j" by simp
        also have "\<dots> = lk c j OR rest b1 k1 j OR rest b2 k2 j" by (rule or3_cong2[OF e])
        finally show "lk c' j OR rest b1 k1'' j OR rest b2 k2'' j
                          = lk c j OR rest b1 k1 j OR rest b2 k2 j" .
      qed
      moreover have "merge_loop c \<lparr>block = b1, idx = k1\<rparr> \<lparr>block = b2, idx = k2\<rparr>
            = Some (Inr (c', \<lparr>block = b1, idx = k1''\<rparr>, \<lparr>block = b2, idx = k2''\<rparr>))"
        using unfold ms r(1) by simp
      ultimately show ?thesis using r(2-7) by - (intro exI conjI; assumption)
    qed
  qed
qed




lemma ResetAndMergeFrom_ok:
  assumes "\<not> Frozen nb" "length (Values nb) = BLOCK_FULL_LENGTH" "wf_block b1" "wf_block b2"
  shows "\<exists>c. ResetAndMergeFrom nb b1 b2 = Some (Inr c) \<and> accum c
           \<and> (\<forall>j \<le> 0xFFFF. lk c j = lk b1 j OR lk b2 j)"
proof -
  from Reset_accum[OF assms(1,2)] obtain c0 where
    rs: "Reset nb = Inr c0" and acc0: "accum c0" and z0: "\<forall>j. lk c0 j = 0"
    and bl0: "\<forall>i. below c0 i" by blast
  have b1: "0 < Length b1 \<longrightarrow> below c0 (it_index b1 0)"
    and b2: "0 < Length b2 \<longrightarrow> below c0 (it_index b2 0)" using bl0 by simp_all
  have z1: "0 \<le> Length b1" and z2: "0 \<le> Length b2" by simp_all
  from merge_ok[OF assms(3,4) acc0 z1 z2 b1 b2] obtain c1 k1 k2 where
    ml: "merge_loop c0 \<lparr>block = b1, idx = 0\<rparr> \<lparr>block = b2, idx = 0\<rparr>
            = Some (Inr (c1, \<lparr>block = b1, idx = k1\<rparr>, \<lparr>block = b2, idx = k2\<rparr>))"
    and acc1: "accum c1" and kk: "k1 \<le> Length b1" "k2 \<le> Length b2"
    and ex: "\<not> (k1 < Length b1 \<and> k2 < Length b2)"
    and p1: "k1 < Length b1 \<longrightarrow> below c1 (it_index b1 k1)"
    and p2: "k2 < Length b2 \<longrightarrow> below c1 (it_index b2 k2)"
    and g1: "\<forall>j \<le> 0xFFFF. lk c1 j OR rest b1 k1 j OR rest b2 k2 j
                        = lk c0 j OR rest b1 0 j OR rest b2 0 j" by blast
  from drain_ok[OF assms(3) acc1 kk(1) p1] obtain c2 where
    d1: "drain_loop c1 \<lparr>block = b1, idx = k1\<rparr> = Some (Inr c2)" and acc2: "accum c2"
    and same: "k1 = Length b1 \<longrightarrow> c2 = c1"
    and g2: "\<forall>j \<le> 0xFFFF. lk c2 j = lk c1 j OR rest b1 k1 j" by (elim exE conjE)
  have p2': "k2 < Length b2 \<longrightarrow> below c2 (it_index b2 k2)"
  proof
    assume k2: "k2 < Length b2"
    with ex kk have "k1 = Length b1" by simp
    with same have "c2 = c1" by simp
    with p2 k2 show "below c2 (it_index b2 k2)" by simp
  qed
  from drain_ok[OF assms(4) acc2 kk(2) p2'] obtain c3 where
    d2: "drain_loop c2 \<lparr>block = b2, idx = k2\<rparr> = Some (Inr c3)" and acc3: "accum c3"
    and g3: "\<forall>j \<le> 0xFFFF. lk c3 j = lk c2 j OR rest b2 k2 j" by (elim exE conjE)
  have r: "ResetAndMergeFrom nb b1 b2 = Some (Inr c3)"
    using rs ml d1 d2 by (simp add: ResetAndMergeFrom_def Iterator_def)
  have "\<forall>j \<le> 0xFFFF. lk c3 j = lk b1 j OR lk b2 j"
  proof (intro allI impI)
    fix j :: uint32 assume j: "j \<le> 0xFFFF"
    have "lk c3 j = (lk c1 j OR rest b1 k1 j) OR rest b2 k2 j" using g2 g3 j by simp
    also have "\<dots> = lk c1 j OR rest b1 k1 j OR rest b2 k2 j" by (simp only: or.assoc)
    also have "\<dots> = lk c0 j OR rest b1 0 j OR rest b2 0 j" using g1 j by simp
    also have "\<dots> = lk b1 j OR lk b2 j"
      using z0 rest_0[OF assms(3)] rest_0[OF assms(4)] by simp
    finally show "lk c3 j = lk b1 j OR lk b2 j" .
  qed
  with r acc3 show ?thesis by blast
qed

section \<open>Merge\<close>


lemma blocks_lk_None: "map_of bs (hi j) = None \<Longrightarrow> blocks_lk bs j = 0"
  by (simp add: blocks_lk_def)

lemma merge_blocks_ok:
  assumes "\<not> Frozen nb" "length (Values nb) = BLOCK_FULL_LENGTH" "blocks_ok bs" "blocks_ok bs2"
    "set order \<subseteq> fst ` set bs2"
  shows "\<exists>nb' bs'. merge_blocks nb bs bs2 order = Some (Inr (nb', bs')) \<and> blocks_ok bs'
           \<and> fst ` set bs' = fst ` set bs \<union> set order
           \<and> (\<forall>j. blocks_lk bs' j
                  = blocks_lk bs j OR (if hi j \<in> set order then blocks_lk bs2 j else 0))"
  using assms(1,2,3,5)
proof (induction order arbitrary: nb bs)
  case Nil
  then show ?case by simp
next
  case (Cons upper rest)
  from Cons.prems(4) have "map_of bs2 upper \<noteq> None" by (simp add: map_of_eq_None_iff)
  then obtain block2 where m2: "map_of bs2 upper = Some block2" by auto
  from blocks_ok_map_of[OF assms(4) m2] have wf2: "wf_block block2" and fr2: "Frozen block2"
    by simp_all
  have "\<exists>nb1 bs1. merge_blocks nb bs bs2 (upper # rest) = merge_blocks nb1 bs1 bs2 rest
          \<and> \<not> Frozen nb1 \<and> length (Values nb1) = BLOCK_FULL_LENGTH \<and> blocks_ok bs1
          \<and> fst ` set bs1 = insert upper (fst ` set bs)
          \<and> (\<forall>j. blocks_lk bs1 j
                 = blocks_lk bs j OR (if hi j = upper then blocks_lk bs2 j else 0))"
  proof (cases "map_of bs upper")
    case None
    define bs1 where "bs1 = AList.update upper block2 bs"
    have e: "merge_blocks nb bs bs2 (upper # rest) = merge_blocks nb bs1 bs2 rest"
      using m2 None by (simp add: bs1_def)
    have ok1: "blocks_ok bs1" using blocks_ok_update[OF Cons.prems(3) wf2 fr2] by (simp add: bs1_def)
    have k1: "fst ` set bs1 = insert upper (fst ` set bs)" by (simp add: bs1_def dom_update)
    have l1: "blocks_lk bs1 j = blocks_lk bs j OR (if hi j = upper then blocks_lk bs2 j else 0)" for j
      using None m2 by (simp add: bs1_def blocks_lk_def update_conv')
    from e ok1 k1 l1 Cons.prems(1,2) show ?thesis by blast
  next
    case (Some blk)
    from blocks_ok_map_of[OF Cons.prems(3) Some] have wfb: "wf_block blk" by simp
    from ResetAndMergeFrom_ok[OF Cons.prems(1,2) wfb wf2] obtain c where
      r: "ResetAndMergeFrom nb blk block2 = Some (Inr c)" and acc: "accum c"
      and l: "\<forall>j \<le> 0xFFFF. lk c j = lk blk j OR lk block2 j" by blast
    from acc have wfc: "wf_block c" and nfc: "\<not> Frozen c"
      and lenc: "length (Values c) = BLOCK_FULL_LENGTH" by (simp_all add: accum_def)
    from Copy_wf[OF wfc] have cp: "wf_block (Copy c)" "Frozen (Copy c)" "\<forall>j. lk (Copy c) j = lk c j"
      by simp_all
    define bs1 where "bs1 = AList.update upper (Copy c) bs"
    have e: "merge_blocks nb bs bs2 (upper # rest) = merge_blocks c bs1 bs2 rest"
      using m2 Some r by (simp add: bs1_def)
    have ok1: "blocks_ok bs1" using blocks_ok_update[OF Cons.prems(3) cp(1,2)] by (simp add: bs1_def)
    have k1: "fst ` set bs1 = insert upper (fst ` set bs)" by (simp add: bs1_def dom_update)
    have l1: "blocks_lk bs1 j = blocks_lk bs j OR (if hi j = upper then blocks_lk bs2 j else 0)" for j
      using Some m2 l lo_le[of j] cp(3) by (simp add: bs1_def blocks_lk_def update_conv')
    from e ok1 k1 l1 nfc lenc show ?thesis by blast
  qed
  then obtain nb1 bs1 where
    e: "merge_blocks nb bs bs2 (upper # rest) = merge_blocks nb1 bs1 bs2 rest"
    and nf1: "\<not> Frozen nb1" and len1: "length (Values nb1) = BLOCK_FULL_LENGTH"
    and ok1: "blocks_ok bs1" and k1: "fst ` set bs1 = insert upper (fst ` set bs)"
    and l1: "\<forall>j. blocks_lk bs1 j = blocks_lk bs j OR (if hi j = upper then blocks_lk bs2 j else 0)"
    by (elim exE conjE)
  from Cons.prems(4) have sub: "set rest \<subseteq> fst ` set bs2" by simp
  from Cons.IH[OF nf1 len1 ok1 sub] obtain nb' bs' where
    m: "merge_blocks nb1 bs1 bs2 rest = Some (Inr (nb', bs'))" and ok': "blocks_ok bs'"
    and k': "fst ` set bs' = fst ` set bs1 \<union> set rest"
    and l': "\<forall>j. blocks_lk bs' j = blocks_lk bs1 j OR (if hi j \<in> set rest then blocks_lk bs2 j else 0)"
    by (elim exE conjE)
  have "blocks_lk bs' j = blocks_lk bs j OR (if hi j \<in> set (upper # rest) then blocks_lk bs2 j else 0)" for j
    using l' l1 by (simp add: or.assoc)
  moreover have "fst ` set bs' = fst ` set bs \<union> set (upper # rest)" using k' k1 by auto
  ultimately show ?case using e m ok' by simp
qed

lemma Merge_ok:
  assumes "mb_inv X" "mb_inv Y" "set order = insert (hi (LastId Y)) (fst ` set (Blocks Y))"
  shows "\<exists>X'. Merge order X Y
           = Some (Inr (X', \<lparr>Blocks = [], Current = NewEmptyBlock, LastId = 0, LastVal = 0\<rparr>))
         \<and> mb_inv X' \<and> (\<forall>j. mlk X' j = mlk X j OR mlk Y j)"
proof -
  from pushCurrent_step[OF assms(1)] obtain X1 where
    pX: "pushCurrent X = Inr X1" and okX: "blocks_ok (Blocks X1)" and neX: "Blocks X1 \<noteq> []"
    and nfX: "\<not> Frozen (Current X1)" and lenX: "length (Values (Current X1)) = BLOCK_FULL_LENGTH"
    and lX: "\<forall>j. blocks_lk (Blocks X1) j = mlk X j" by (elim exE conjE)
  from pushCurrent_step[OF assms(2)] obtain Y1 where
    pY: "pushCurrent Y = Inr Y1" and okY: "blocks_ok (Blocks Y1)"
    and kY: "fst ` set (Blocks Y1) = insert (hi (LastId Y)) (fst ` set (Blocks Y))"
    and lY: "\<forall>j. blocks_lk (Blocks Y1) j = mlk Y j" by (elim exE conjE)
  have sub: "set order \<subseteq> fst ` set (Blocks Y1)" using assms(3) kY by simp
  have nA: "\<not> Frozen NewAccumulationBlock" "length (Values NewAccumulationBlock) = BLOCK_FULL_LENGTH"
    by (simp_all add: NewAccumulationBlock_def)
  from merge_blocks_ok[OF nA okX okY sub] obtain nb' bs' where
    mb: "merge_blocks NewAccumulationBlock (Blocks X1) (Blocks Y1) order = Some (Inr (nb', bs'))"
    and ok': "blocks_ok bs'" and k': "fst ` set bs' = fst ` set (Blocks X1) \<union> set order"
    and l': "\<forall>j. blocks_lk bs' j = blocks_lk (Blocks X1) j
                 OR (if hi j \<in> set order then blocks_lk (Blocks Y1) j else 0)"
    by (elim exE conjE)
  have ne': "bs' \<noteq> []"
  proof
    assume "bs' = []"
    with k' have "fst ` set (Blocks X1) = {}" by simp
    with neX show False by simp
  qed
  define X2 where "X2 = X1\<lparr>Blocks := bs'\<rparr>"
  have "blocks_ok (Blocks X2)" "Blocks X2 \<noteq> []" "\<not> Frozen (Current X2)"
    "length (Values (Current X2)) = BLOCK_FULL_LENGTH"
    using ok' ne' nfX lenX by (simp_all add: X2_def)
  from unPushCurrent_step[OF this] obtain X' where
    u: "unPushCurrent X2 = Inr X'" and inv: "mb_inv X'"
    and lk': "\<forall>j. mlk X' j = blocks_lk (Blocks X2) j" by (elim exE conjE)
  have m: "Merge order X Y
           = Some (Inr (X', \<lparr>Blocks = [], Current = NewEmptyBlock, LastId = 0, LastVal = 0\<rparr>))"
    using pX pY mb u by (simp add: Merge_def X2_def)
  have "mlk X' j = mlk X j OR mlk Y j" for j
  proof (cases "hi j \<in> set order")
    case True
    then show ?thesis using lk' l' lX lY by (simp add: X2_def)
  next
    case False
    with sub assms(3) kY have "map_of (Blocks Y1) (hi j) = None"
      by (simp add: map_of_eq_None_iff)
    then have "mlk Y j = 0" using lY blocks_lk_None[of "Blocks Y1" j] by simp
    with False show ?thesis using lk' l' lX by (simp add: X2_def)
  qed
  with m inv show ?thesis by blast
qed

section \<open>Reachable MultiBlocks\<close>


lemma MB_Append_Inr:
  assumes "mb_inv m" "MB_Append m i v = Inr m'"
  shows "mb_inv m' \<and> LastId m' = i \<and> (\<forall>j. mlk m' j = (if j = i then mlk m j OR v else mlk m j))"
proof -
  from assms(2) have "LastId m \<le> i" "v \<le> 0xFFFF"
    by (auto simp: MB_Append_alt split: if_splits)
  from MB_Append_step[OF assms(1) this] assms(2) show ?thesis by auto
qed

lemma reachable_inv: "reachable m \<Longrightarrow> mb_inv m"
proof (induction rule: reachable.induct)
  case new
  show ?case by (rule mb_inv_New)
next
  case (append m i val m')
  then show ?case using MB_Append_Inr by blast
next
  case (merge m m2 order m' d)
  from Merge_ok[OF merge.IH(1) merge.IH(2) merge.hyps(3)] merge.hyps(4)
  show ?case by auto
qed

lemma MB_Appends_Inr:
  assumes "mb_inv m" "MB_Appends m ps = Inr m'"
  shows "mb_inv m'"
  using assms
proof (induction ps arbitrary: m)
  case Nil
  then show ?case by simp
next
  case (Cons p ps)
  obtain i v where p: "p = (i, v)" by (cases p)
  from Cons.prems(2) p obtain m1 where a: "MB_Append m i v = Inr m1" and r: "MB_Appends m1 ps = Inr m'"
    by (auto split: sum.splits)
  from MB_Append_Inr[OF Cons.prems(1) a] have "mb_inv m1" by simp
  from Cons.IH[OF this r] show ?case .
qed

lemma MB_Appends_reachable:
  assumes "reachable m" "MB_Appends m ps = Inr m'"
  shows "reachable m'"
  using assms
proof (induction ps arbitrary: m)
  case Nil
  then show ?case by simp
next
  case (Cons p ps)
  obtain i v where p: "p = (i, v)" by (cases p)
  from Cons.prems(2) p obtain m1 where a: "MB_Append m i v = Inr m1" and r: "MB_Appends m1 ps = Inr m'"
    by (auto split: sum.splits)
  from reachable.append[OF Cons.prems(1) a] have "reachable m1" .
  from Cons.IH[OF this r] show ?case .
qed

lemma mlk_above:
  assumes "mb_inv m" "LastId m < i"
  shows "mlk m i = 0"
proof (cases "hi i = hi (LastId m)")
  case True
  from hi_lo_less[OF True[symmetric] assms(2)] have "lo (LastId m) < lo i" .
  with assms(1) lo_le[of i] have "lk (Current m) (lo i) = 0" by (simp add: mb_inv_def)
  with True assms(2) show ?thesis by (simp add: mlk_def)
next
  case False
  with hi_mono[of "LastId m" i] assms(2) have "hi (LastId m) < hi i" by simp
  with assms(1) have "hi i \<notin> fst ` set (Blocks m)" by (auto simp: mb_inv_def)
  then have "map_of (Blocks m) (hi i) = None" by (simp add: map_of_eq_None_iff)
  with False assms(2) show ?thesis by (simp add: mlk_def blocks_lk_def)
qed

lemma mb_lookup_after_eq:
  assumes "sorted (map fst ps)" "\<forall>(i, v)\<in>set ps. 0 \<le> i \<and> v \<le> 0xFFFF"
  shows "mb_lookup_after ps j = Inr (or_vals ps j)"
proof -
  have "\<forall>(i, v)\<in>set ps. LastId NewMultiBlock \<le> i \<and> v \<le> 0xFFFF"
    using assms(2) by (simp add: NewMultiBlock_def)
  from MB_Appends_step[OF mb_inv_New assms(1) this] obtain m where
    a: "MB_Appends NewMultiBlock ps = Inr m" and inv: "mb_inv m"
    and l: "\<forall>j. mlk m j = mlk NewMultiBlock j OR or_vals ps j" by (elim exE conjE)
  from l have "mlk m j = or_vals ps j" by (simp add: mlk_New)
  with a mb_Lookup[OF inv, of j] show ?thesis by (simp add: mb_lookup_after_def)
qed



lemma Appends_strict:
  assumes "accum b" "sorted_wrt (<) (map fst ps)" "\<forall>i\<in>fst ` set ps. below b i"
    "\<forall>(i, v)\<in>set ps. i \<le> 0xFFFF \<and> v \<le> 0xFFFF"
  shows "\<exists>b'. Appends b ps = Inr b' \<and> accum b' \<and> (\<forall>j \<le> 0xFFFF. lk b' j = lk b j OR or_vals ps j)"
  using assms
proof (induction ps arbitrary: b)
  case Nil
  then show ?case by simp
next
  case (Cons p ps)
  obtain i v where p: "p = (i, v)" by (cases p)
  with Cons.prems have iv: "i \<le> 0xFFFF" "v \<le> 0xFFFF" and bl: "below b i" by auto
  from Append_step[OF Cons.prems(1) iv bl] obtain b1 where
    a: "Append b i v = Inr b1" and acc: "accum b1"
    and l: "\<forall>j \<le> 0xFFFF. lk b1 j = (if j = i then lk b j OR v else lk b j)"
    and b: "\<forall>i'. i < i' \<longrightarrow> below b1 i'" by (elim exE conjE)
  from Cons.prems(2) p have s: "sorted_wrt (<) (map fst ps)" and gt: "\<forall>k\<in>fst ` set ps. i < k"
    by auto
  from gt b have bl1: "\<forall>k\<in>fst ` set ps. below b1 k" by blast
  from Cons.prems(4) have bd: "\<forall>(i, v)\<in>set ps. i \<le> 0xFFFF \<and> v \<le> 0xFFFF" by simp
  from Cons.IH[OF acc s bl1 bd] obtain b' where
    r: "Appends b1 ps = Inr b'" "accum b'"
    and l': "\<forall>j \<le> 0xFFFF. lk b' j = lk b1 j OR or_vals ps j" by (elim exE conjE)
  have "\<forall>j \<le> 0xFFFF. lk b' j = lk b j OR or_vals (p # ps) j"
    using l l' p by (simp add: or.assoc)
  with a r p show ?case by simp
qed

lemma New_Appends_strict:
  assumes "sorted_wrt (<) (map fst ps)" "\<forall>(i, v)\<in>set ps. i \<le> 0xFFFF \<and> v \<le> 0xFFFF"
  shows "\<exists>a. Appends NewAccumulationBlock ps = Inr a \<and> accum a
           \<and> (\<forall>j \<le> 0xFFFF. lk a j = or_vals ps j)"
proof -
  from NewAccumulationBlock_accum have acc: "accum NewAccumulationBlock"
    and z: "\<forall>j. lk NewAccumulationBlock j = 0"
    and bl: "\<forall>i\<in>fst ` set ps. below NewAccumulationBlock i" by simp_all
  from Appends_strict[OF acc assms(1) bl assms(2)] z show ?thesis by simp
qed


section \<open>Frozen blocks\<close>

lemma Copy_Frozen: "Frozen (Copy b)"
  by (simp add: Copy_def)

lemma frozen_update:
  assumes "\<forall>(k, b)\<in>set bs. Frozen b" "Frozen b'"
  shows "\<forall>(k, b)\<in>set (AList.update k' b' bs). Frozen b"
proof -
  have "Frozen b" if "(k, b) \<in> set (AList.update k' b' bs)" for k b
    using set_update_cases[OF that] assms by auto
  then show ?thesis by auto
qed

lemma all_frozen_same: "all_frozen m \<Longrightarrow> Blocks m' = Blocks m \<Longrightarrow> all_frozen m'"
  by (simp add: all_frozen_def)

lemma all_frozen_update:
  "all_frozen m \<Longrightarrow> Blocks m' = AList.update k (Copy c) (Blocks m) \<Longrightarrow> all_frozen m'"
  using frozen_update[OF _ Copy_Frozen, of "Blocks m" k c] by (simp add: all_frozen_def)

lemma all_frozen_delete:
  "all_frozen m \<Longrightarrow> Blocks m' = AList.delete k (Blocks m) \<Longrightarrow> all_frozen m'"
  by (auto simp: all_frozen_def AList.delete_eq)

lemma MB_Append_frozen:
  assumes "all_frozen m" "MB_Append m i v = Inr m'"
  shows "all_frozen m'"
proof -
  from assms(2) have "Blocks m' = Blocks m
      \<or> (\<exists>k cur. Blocks m' = AList.update k (Copy cur) (Blocks m))"
    unfolding MB_Append_def Let_def by (fastforce split: if_splits sum.splits)
  with assms(1) all_frozen_same all_frozen_update show ?thesis by blast
qed

lemma pushCurrent_frozen:
  assumes "all_frozen m" "pushCurrent m = Inr m'"
  shows "all_frozen m'"
proof -
  from assms(2) have "\<exists>k cur. Blocks m' = AList.update k (Copy cur) (Blocks m)"
    unfolding pushCurrent_def Let_def by (fastforce split: if_splits sum.splits)
  with assms(1) all_frozen_update show ?thesis by blast
qed

lemma unPushCurrent_frozen:
  assumes "all_frozen m" "unPushCurrent m = Inr m'"
  shows "all_frozen m'"
proof -
  from assms(2) have "Blocks m' = Blocks m \<or> (\<exists>k. Blocks m' = AList.delete k (Blocks m))"
    unfolding unPushCurrent_def Let_def
    by (fastforce split: if_splits sum.splits option.splits prod.splits)
  with assms(1) all_frozen_same all_frozen_delete show ?thesis by blast
qed

lemma merge_blocks_frozen:
  "\<forall>(k, b)\<in>set bs. Frozen b \<Longrightarrow> \<forall>(k, b)\<in>set bs2. Frozen b
     \<Longrightarrow> merge_blocks nb bs bs2 order = Some (Inr (nb', bs'))
     \<Longrightarrow> \<forall>(k, b)\<in>set bs'. Frozen b"
proof (induction order arbitrary: nb bs)
  case Nil
  then show ?case by simp
next
  case (Cons upper rest)
  from Cons.prems(3) obtain block2 where b2: "map_of bs2 upper = Some block2"
    by (auto split: option.splits)
  then have "(upper, block2) \<in> set bs2" by (rule map_of_SomeD)
  with Cons.prems(2) have f2: "Frozen block2" by auto
  show ?case
  proof (cases "map_of bs upper")
    case None
    with Cons.prems(3) b2 have
      m: "merge_blocks nb (AList.update upper block2 bs) bs2 rest = Some (Inr (nb', bs'))"
      by simp
    from Cons.IH[OF frozen_update[OF Cons.prems(1) f2] Cons.prems(2) m] show ?thesis .
  next
    case (Some blk)
    with Cons.prems(3) b2 obtain nb1 where
      m: "merge_blocks nb1 (AList.update upper (Copy nb1) bs) bs2 rest = Some (Inr (nb', bs'))"
      by (auto split: option.splits sum.splits)
    from Cons.IH[OF frozen_update[OF Cons.prems(1) Copy_Frozen] Cons.prems(2) m] show ?thesis .
  qed
qed

lemma Merge_frozen:
  assumes "all_frozen m" "all_frozen m2" "Merge order m m2 = Some (Inr (m', d))"
  shows "all_frozen m' \<and> all_frozen d"
proof -
  from assms(3) obtain p p2 nb bs where
    p: "pushCurrent m = Inr p" and p2: "pushCurrent m2 = Inr p2"
    and mb: "merge_blocks NewAccumulationBlock (Blocks p) (Blocks p2) order = Some (Inr (nb, bs))"
    and u: "unPushCurrent (p\<lparr>Blocks := bs\<rparr>) = Inr m'"
    and d: "d = \<lparr>Blocks = [], Current = NewEmptyBlock, LastId = 0, LastVal = 0\<rparr>"
    unfolding Merge_def by (auto split: sum.splits option.splits)
  from pushCurrent_frozen[OF assms(1) p] pushCurrent_frozen[OF assms(2) p2]
  have "\<forall>(k, b)\<in>set (Blocks p). Frozen b" "\<forall>(k, b)\<in>set (Blocks p2). Frozen b"
    by (simp_all add: all_frozen_def)
  from merge_blocks_frozen[OF this mb] have "all_frozen (p\<lparr>Blocks := bs\<rparr>)"
    by (simp add: all_frozen_def)
  from unPushCurrent_frozen[OF this u] d show ?thesis by (simp add: all_frozen_def)
qed

lemma frozen_panics:
  assumes "Frozen b"
  shows "(\<exists>e. Append b i v = Inl e) \<and> Reset b = Inl FrozenBlock \<and> UnAppend b = Inl FrozenBlock
           \<and> CopyFrom b b2 = Inl FrozenBlock
           \<and> ResetAndMergeFrom b b1 b2 = Some (Inl FrozenBlock)"
  using assms
  by (simp add: Append_def Reset_def UnAppend_def CopyFrom_def ResetAndMergeFrom_def)

section \<open>The way-phase scenario\<close>

lemma S5_worker_eq:
  "\<exists>nodes ways. S5_worker = Inr \<lparr>Ways = ways, ExtraNodes = [(10, 2), (11, 1), (12, 2)], Id = 0, Nodes = nodes\<rparr>
      \<and> MB_Lookup ways 100 = Inr 3"
proof -
  have "sorted (map fst [(10 :: int, 1 :: uint32), (11, 2), (12, 1)])"
    "\<forall>(i, v)\<in>set [(10 :: int, 1 :: uint32), (11, 2), (12, 1)]. LastId NewMultiBlock \<le> i \<and> v \<le> 0xFFFF"
    by (simp_all add: NewMultiBlock_def)
  from MB_Appends_step[OF mb_inv_New this] obtain nodes where
    a: "MB_Appends NewMultiBlock [(10, 1), (11, 2), (12, 1)] = Inr nodes" and inv: "mb_inv nodes"
    and l: "\<forall>j. mlk nodes j = mlk NewMultiBlock j OR or_vals [(10, 1), (11, 2), (12, 1)] j"
    by (elim exE conjE)
  have L: "MB_Lookup nodes 10 = Inr 1" "MB_Lookup nodes 11 = Inr 2" "MB_Lookup nodes 12 = Inr 1"
    using mb_Lookup[OF inv] l by (simp_all add: mlk_New)
  have wm: "way_masks nodes [10, 11, 12] [] 0 = Inr ([1, 2, 1], 3)"
    using L by simp
  have "LastId NewMultiBlock \<le> 100" "(3 :: uint32) \<le> 0xFFFF" by (simp_all add: NewMultiBlock_def)
  from MB_Append_step[OF mb_inv_New this] obtain ways where
    w: "MB_Append NewMultiBlock 100 3 = Inr ways" and winv: "mb_inv ways"
    and wl: "\<forall>j. mlk ways j = (if j = 100 then mlk NewMultiBlock j OR 3 else mlk NewMultiBlock j)"
    by (elim exE conjE)
  have wL: "MB_Lookup ways 100 = Inr 3" using mb_Lookup[OF winv] wl by (simp add: mlk_New)
  have ex: "way_extras [] 3 (zip [10, 11, 12] [1, 2, 1]) = [(10 :: int, 2), (11, 1), (12, 2)]"
    by (simp add: extra_get_def)
  have "S5_worker = Inr \<lparr>Ways = ways, ExtraNodes = [(10, 2), (11, 1), (12, 2)], Id = 0, Nodes = nodes\<rparr>"
    using a wm w ex by (simp add: S5_worker_def putWay_def extra_get_def)
  with wL show ?thesis by blast
qed

section \<open>Merging blocks that hold an id twice\<close>

lemma pairs_it:
  assumes "Length b \<le> BLOCK_FULL_LENGTH" "k < Length b" "Length b \<le> length (Values b)"
    "entries b ! k = (i, v)"
  shows "Index \<lparr>block = b, idx = k\<rparr> = Inr i \<and> Value \<lparr>block = b, idx = k\<rparr> = Inr v
           \<and> Next \<lparr>block = b, idx = k\<rparr> = Inr \<lparr>block = b, idx = k + 1\<rparr>"
  using assms by (simp add: Index_def Value_def Next_def entries_def unpack_def)

lemma rep_Reset:
  assumes "\<not> Frozen b" "length (Values b) = BLOCK_FULL_LENGTH"
  shows "\<exists>b0. Reset b = Inr b0 \<and> rep b0 []"
  using assms by (simp add: Reset_def rep_def entries_def)

section \<open>The claims\<close>

text \<open>
  C1, as the spec states it, fails in pairs mode: after the appends \<open>(5, 1)\<close> and \<open>(5, 2)\<close>
  the lookup of 5 returns 2, the value appended last, and not the OR 3.
\<close>

theorem C1_pairs_mode_keeps_last:
  "lookup_after [(5, 1), (5, 2)] 5 = Inr 2
   \<and> lookup_after [(5, 1), (5, 2)] 5 \<noteq> Inr (or_vals [(5, 1), (5, 2)] 5)"
proof -
  have r: "rep NewAccumulationBlock []" by (rule rep_New)
  from rep_Appends[OF r, of "[(5, 1), (5, 2)]"] obtain b where
    a: "Appends NewAccumulationBlock [(5, 1), (5, 2)] = Inr b" and rb: "rep b [(5, 1), (5, 2)]"
    by auto
  from rb have "Length b = 2" by (simp add: rep_def)
  with rep_Lookup[OF rb, of 5] have "Lookup b 5 = Inr 2" by simp
  with a show ?thesis by (simp add: lookup_after_def)
qed

text \<open>
  C1, amended. Appending any list \<open>ps\<close> of pairs with non-decreasing ids (ids and values
  below \<open>2^16\<close>) to a fresh accumulation block does not panic, and the block is in array
  mode exactly when more than \<open>BLOCK_FULL_LENGTH\<close> pairs were appended. A lookup of an id
  \<open>j < 2^16\<close> then returns, in array mode, the OR of all values appended under \<open>j\<close>, and in
  pairs mode the value appended last under \<open>j\<close>; both are 0 for an id never appended.
  When every id is appended at most once, the lookup returns the OR of the values
  appended under \<open>j\<close> in either mode.
\<close>

theorem C1_append_then_lookup:
  assumes "sorted (map fst ps)" "\<forall>(i, v)\<in>set ps. i \<le> BLOCK_IDX_MASK \<and> v \<le> BLOCK_VAL_MASK"
    "j \<le> BLOCK_IDX_MASK"
  shows "\<exists>b. Appends NewAccumulationBlock ps = Inr b
           \<and> (Length b > BLOCK_FULL_LENGTH \<longleftrightarrow> length ps > BLOCK_FULL_LENGTH)
           \<and> Lookup b j = Inr (if Length b > BLOCK_FULL_LENGTH then or_vals ps j else last_val ps j)
           \<and> (distinct (map fst ps) \<longrightarrow> Lookup b j = Inr (or_vals ps j))"
proof -
  from rep_Appends[OF rep_New assms(2)] obtain b where
    a: "Appends NewAccumulationBlock ps = Inr b" and r: "rep b ps" by auto
  from r have m: "Length b > BLOCK_FULL_LENGTH \<longleftrightarrow> length ps > BLOCK_FULL_LENGTH"
    by (auto simp: rep_def split: if_splits)
  note l = rep_Lookup[OF r assms(1,3)]
  have "distinct (map fst ps) \<longrightarrow> Lookup b j = Inr (or_vals ps j)"
    using l by (simp add: last_val_distinct)
  with a m l show ?thesis by blast
qed

theorem C1_append_then_lookup_witness:
  "\<exists>b. Appends NewAccumulationBlock [(1, 4), (7, 2)] = Inr b \<and> Lookup b 7 = Inr 2"
  using C1_append_then_lookup[of "[(1, 4), (7, 2)]" 7] by auto


text \<open>
  C9. A frozen empty block, as \<open>NewEmptyBlock\<close> returns it (length 0, no storage), answers
  every \<open>Lookup\<close> of an id in \<open>[0, 2^16)\<close> with 0, and the lookup does not panic.
\<close>

theorem C9_empty_block_lookup:
  "i \<le> BLOCK_IDX_MASK \<Longrightarrow>
     Frozen NewEmptyBlock \<and> Length NewEmptyBlock = 0 \<and> Values NewEmptyBlock = []
     \<and> Lookup NewEmptyBlock i = Inr 0"
  by (auto simp add: Lookup_def NewEmptyBlock_def search_Nil)

theorem C9_empty_block_lookup_witness:
  "(7 :: uint32) \<le> BLOCK_IDX_MASK \<and> Lookup NewEmptyBlock 7 = Inr 0"
  using C9_empty_block_lookup[of 7] by simp






text \<open>
  C2. Let \<open>X\<close> and \<open>Y\<close> be MultiBlocks built from \<open>NewMultiBlock\<close> by appends and merges that
  returned, and let \<open>order\<close> list the keys of \<open>Y\<close>'s map as Go's \<open>range\<close> visits them
  once \<open>Y\<close> was pushed (the keys of \<open>Y.Blocks\<close> and the shard of \<open>Y.LastId\<close>). Then
  \<open>X.Merge(Y)\<close> returns, and for every id the merged \<open>X\<close> looks up the bitwise OR of what
  \<open>X\<close> and \<open>Y\<close> looked up before the merge. When \<open>X\<close> is a new MultiBlock, the merged \<open>X\<close>
  looks up what \<open>Y\<close> did, for every id.
\<close>
theorem C2_merge_is_or:
  assumes "reachable X" "reachable Y"
    and "set order = insert (hi (LastId Y)) (fst ` set (Blocks Y))"
  shows "\<exists>X' Y'. Merge order X Y = Some (Inr (X', Y'))
           \<and> (\<forall>j. \<exists>x y. MB_Lookup X j = Inr x \<and> MB_Lookup Y j = Inr y
                       \<and> MB_Lookup X' j = Inr (x OR y))
           \<and> (X = NewMultiBlock \<longrightarrow> (\<forall>j. MB_Lookup X' j = MB_Lookup Y j))"
proof -
  from reachable_inv assms have iX: "mb_inv X" and iY: "mb_inv Y" by simp_all
  from Merge_ok[OF iX iY assms(3)] obtain X' where
    m: "Merge order X Y
           = Some (Inr (X', \<lparr>Blocks = [], Current = NewEmptyBlock, LastId = 0, LastVal = 0\<rparr>))"
    and iX': "mb_inv X'" and l: "\<forall>j. mlk X' j = mlk X j OR mlk Y j" by (elim exE conjE)
  have p1: "\<forall>j. \<exists>x y. MB_Lookup X j = Inr x \<and> MB_Lookup Y j = Inr y
                       \<and> MB_Lookup X' j = Inr (x OR y)"
    using mb_Lookup[OF iX] mb_Lookup[OF iY] mb_Lookup[OF iX'] l by simp
  have p2: "X = NewMultiBlock \<longrightarrow> (\<forall>j. MB_Lookup X' j = MB_Lookup Y j)"
    using mb_Lookup[OF iY] mb_Lookup[OF iX'] l by (simp add: mlk_New)
  from m p1 p2 show ?thesis by blast
qed

theorem C2_merge_is_or_witness:
  "\<exists>X' Y'. Merge [0] NewMultiBlock (NewMultiBlock\<lparr>LastVal := 3\<rparr>) = Some (Inr (X', Y'))
      \<and> MB_Lookup X' 0 = Inr 3"
proof -
  have a: "MB_Append NewMultiBlock 0 3 = Inr (NewMultiBlock\<lparr>LastVal := 3\<rparr>)"
    by (simp add: MB_Append_def NewMultiBlock_def)
  have rY: "reachable (NewMultiBlock\<lparr>LastVal := 3\<rparr>)"
    by (rule reachable.append[OF reachable.new a])
  have o: "set [0] = insert (hi (LastId (NewMultiBlock\<lparr>LastVal := 3\<rparr>)))
                      (fst ` set (Blocks (NewMultiBlock\<lparr>LastVal := 3\<rparr>)))"
    by (simp add: NewMultiBlock_def hi_def)
  have l: "MB_Lookup (NewMultiBlock\<lparr>LastVal := 3\<rparr>) 0 = Inr 3"
    by (simp add: MB_Lookup_def NewMultiBlock_def)
  from C2_merge_is_or[OF reachable.new rY o] l show ?thesis by auto
qed

text \<open>
  C3, as the spec states it, fails when ascending ids may repeat: let \<open>a\<close> be built by the
  appends \<open>(5, 1)\<close>, \<open>(5, 2)\<close> and \<open>b\<close> by the append \<open>(5, 4)\<close>. Then the lookup of 5 returns 2 in
  \<open>a\<close> and 4 in \<open>b\<close>, and after \<open>c.ResetAndMergeFrom(a, b)\<close> with a new accumulation block \<open>c\<close> the
  lookup of 5 in \<open>c\<close> returns 2, not \<open>2 | 4 = 6\<close>.
\<close>

theorem C3_repeated_id_breaks_merge_law:
  "lookup_after [(5, 1), (5, 2)] 5 = Inr 2
   \<and> lookup_after [(5, 4)] 5 = Inr 4
   \<and> merge_lookup_after [(5, 1), (5, 2)] [(5, 4)] 5 = Some (Inr 2)
   \<and> merge_lookup_after [(5, 1), (5, 2)] [(5, 4)] 5 \<noteq> Some (Inr (2 OR 4))"
proof -
  from rep_Appends[OF rep_New, of "[(5, 1), (5, 2)]"] obtain a where
    a: "Appends NewAccumulationBlock [(5, 1), (5, 2)] = Inr a" and ra: "rep a [(5, 1), (5, 2)]"
    by auto
  from rep_Appends[OF rep_New, of "[(5, 4)]"] obtain b where
    b: "Appends NewAccumulationBlock [(5, 4)] = Inr b" and rb: "rep b [(5, 4)]"
    by auto
  from ra have La: "Length a = 2" and ea: "entries a = [(5, 1), (5, 2)]"
    and la: "length (Values a) = BLOCK_FULL_LENGTH" by (simp_all add: rep_def)
  from rb have Lb: "Length b = 1" and eb: "entries b = [(5, 4)]"
    and lb: "length (Values b) = BLOCK_FULL_LENGTH" by (simp_all add: rep_def)
  define k1 :: nat where "k1 = 1"
  define k2 :: nat where "k2 = 2"
  have A0: "Index \<lparr>block = a, idx = 0\<rparr> = Inr 5" "Value \<lparr>block = a, idx = 0\<rparr> = Inr 1"
    "Next \<lparr>block = a, idx = 0\<rparr> = Inr \<lparr>block = a, idx = k1\<rparr>"
    using pairs_it[of a 0 5 1] La ea la by (simp_all add: k1_def)
  have A1: "Index \<lparr>block = a, idx = k1\<rparr> = Inr 5" "Value \<lparr>block = a, idx = k1\<rparr> = Inr 2"
    "Next \<lparr>block = a, idx = k1\<rparr> = Inr \<lparr>block = a, idx = k2\<rparr>"
    using pairs_it[of a 1 5 2] La ea la by (simp_all add: k1_def k2_def)
  have B0: "Index \<lparr>block = b, idx = 0\<rparr> = Inr 5" "Value \<lparr>block = b, idx = 0\<rparr> = Inr 4"
    "Next \<lparr>block = b, idx = 0\<rparr> = Inr \<lparr>block = b, idx = k1\<rparr>"
    using pairs_it[of b 0 5 4] Lb eb lb by (simp_all add: k1_def)
  have V: "Valid \<lparr>block = a, idx = 0\<rparr>" "Valid \<lparr>block = a, idx = k1\<rparr>"
    "\<not> Valid \<lparr>block = a, idx = k2\<rparr>" "Valid \<lparr>block = b, idx = 0\<rparr>"
    "\<not> Valid \<lparr>block = b, idx = k1\<rparr>"
    using La Lb by (simp_all add: Valid_def k1_def k2_def)
  have nf: "\<not> Frozen NewAccumulationBlock"
    "length (Values NewAccumulationBlock) = BLOCK_FULL_LENGTH"
    by (simp_all add: NewAccumulationBlock_def)
  from rep_Reset[OF nf] obtain c0 where
    r0: "Reset NewAccumulationBlock = Inr c0" and rc0: "rep c0 []" by (elim exE conjE)
  from rep_step[OF rc0, of 5 5] obtain c1 where
    a1: "Append c0 5 5 = Inr c1" and rc1: "rep c1 [(5, 5)]" by auto
  from rep_step[OF rc1, of 5 2] obtain c2 where
    a2: "Append c1 5 2 = Inr c2" and rc2: "rep c2 [(5, 5), (5, 2)]" by auto
  have o: "(1 :: uint32) OR 4 = 5" by simp
  have ms: "merge_step c0 \<lparr>block = a, idx = 0\<rparr> \<lparr>block = b, idx = 0\<rparr>
              = Inr (c1, \<lparr>block = a, idx = k1\<rparr>, \<lparr>block = b, idx = k1\<rparr>)"
    by (simp add: merge_step_def take_both_def A0 B0 o a1)
  have m1: "merge_loop c1 \<lparr>block = a, idx = k1\<rparr> \<lparr>block = b, idx = k1\<rparr>
              = Some (Inr (c1, \<lparr>block = a, idx = k1\<rparr>, \<lparr>block = b, idx = k1\<rparr>))"
    by (subst merge_loop.simps) (simp add: V)
  have m0: "merge_loop c0 \<lparr>block = a, idx = 0\<rparr> \<lparr>block = b, idx = 0\<rparr>
              = Some (Inr (c1, \<lparr>block = a, idx = k1\<rparr>, \<lparr>block = b, idx = k1\<rparr>))"
    by (subst merge_loop.simps) (simp add: V ms m1)
  have t: "take_from c1 \<lparr>block = a, idx = k1\<rparr> = Inr (c2, \<lparr>block = a, idx = k2\<rparr>)"
    by (simp add: take_from_def A1 a2)
  have d2: "drain_loop c2 \<lparr>block = a, idx = k2\<rparr> = Some (Inr c2)"
    by (subst drain_loop.simps) (simp add: V)
  have d1: "drain_loop c1 \<lparr>block = a, idx = k1\<rparr> = Some (Inr c2)"
    by (subst drain_loop.simps) (simp add: V t d2)
  have d3: "drain_loop c2 \<lparr>block = b, idx = k1\<rparr> = Some (Inr c2)"
    by (subst drain_loop.simps) (simp add: V)
  have r: "ResetAndMergeFrom NewAccumulationBlock a b = Some (Inr c2)"
    by (simp add: ResetAndMergeFrom_def Iterator_def r0 m0 d1 d3)
  from rc2 have Lc: "Length c2 = 2" by (simp add: rep_def)
  from rep_Lookup[OF rc2, of 5] Lc have lc: "Lookup c2 5 = Inr 2" by simp
  from rep_Lookup[OF ra, of 5] La have l1: "Lookup a 5 = Inr 2" by simp
  from rep_Lookup[OF rb, of 5] Lb have l2: "Lookup b 5 = Inr 4" by simp
  show ?thesis
    by (simp add: lookup_after_def merge_lookup_after_def a b r lc l1 l2 del: Appends.simps)
qed

text \<open>
  C3, amended. Let \<open>a\<close> and \<open>b\<close> be built by appending \<open>ps1\<close> and \<open>ps2\<close>, each with strictly
  ascending ids (so no id is appended twice; ids and values below \<open>2^16\<close>), to a new
  accumulation block, and let \<open>c\<close> be a mutable block with the capacity of an accumulation
  block. Then both runs of appends return, \<open>c.ResetAndMergeFrom(a, b)\<close> returns, and for
  every id \<open>j < 2^16\<close> the lookup of \<open>j\<close> in the merged \<open>c\<close> is the bitwise OR of the lookups of
  \<open>j\<close> in \<open>a\<close> and in \<open>b\<close>. The same holds when frozen copies of \<open>a\<close> or \<open>b\<close> are merged.
\<close>

theorem C3_reset_and_merge_is_or:
  assumes "sorted_wrt (<) (map fst ps1)" "\<forall>(i, v)\<in>set ps1. i \<le> BLOCK_IDX_MASK \<and> v \<le> BLOCK_VAL_MASK"
    and "sorted_wrt (<) (map fst ps2)" "\<forall>(i, v)\<in>set ps2. i \<le> BLOCK_IDX_MASK \<and> v \<le> BLOCK_VAL_MASK"
    and "\<not> Frozen c" "length (Values c) = BLOCK_FULL_LENGTH"
    and "j \<le> BLOCK_IDX_MASK"
  shows "\<exists>a b. Appends NewAccumulationBlock ps1 = Inr a \<and> Appends NewAccumulationBlock ps2 = Inr b
           \<and> (\<forall>a'\<in>{a, Copy a}. \<forall>b'\<in>{b, Copy b}.
                 \<exists>c'. ResetAndMergeFrom c a' b' = Some (Inr c')
                   \<and> Lookup a' j = Inr (or_vals ps1 j) \<and> Lookup b' j = Inr (or_vals ps2 j)
                   \<and> Lookup c' j = Inr (or_vals ps1 j OR or_vals ps2 j))"
proof -
  from New_Appends_strict[OF assms(1,2)] obtain a where
    a: "Appends NewAccumulationBlock ps1 = Inr a" and acca: "accum a"
    and la: "\<forall>j \<le> 0xFFFF. lk a j = or_vals ps1 j" by (elim exE conjE)
  from New_Appends_strict[OF assms(3,4)] obtain b where
    b: "Appends NewAccumulationBlock ps2 = Inr b" and accb: "accum b"
    and lb: "\<forall>j \<le> 0xFFFF. lk b j = or_vals ps2 j" by (elim exE conjE)
  from acca accb have wfa: "wf_block a" and wfb: "wf_block b" by (simp_all add: accum_def)
  have main: "\<exists>c'. ResetAndMergeFrom c a' b' = Some (Inr c')
                   \<and> Lookup a' j = Inr (or_vals ps1 j) \<and> Lookup b' j = Inr (or_vals ps2 j)
                   \<and> Lookup c' j = Inr (or_vals ps1 j OR or_vals ps2 j)"
    if wa: "wf_block a'" and wb: "wf_block b'"
      and ea: "lk a' j = lk a j" and eb: "lk b' j = lk b j" for a' b'
  proof -
    from ResetAndMergeFrom_ok[OF assms(5,6) wa wb] obtain c' where
      r: "ResetAndMergeFrom c a' b' = Some (Inr c')" and acc: "accum c'"
      and l: "\<forall>j \<le> 0xFFFF. lk c' j = lk a' j OR lk b' j" by (elim exE conjE)
    from acc have wc: "wf_block c'" by (simp add: accum_def)
    from wf_Lookup[OF wa assms(7)] wf_Lookup[OF wb assms(7)] wf_Lookup[OF wc assms(7)]
      l la lb ea eb assms(7) r show ?thesis by simp
  qed
  from Copy_wf[OF wfa] Copy_wf[OF wfb] have
    "wf_block (Copy a)" "wf_block (Copy b)" "lk (Copy a) j = lk a j" "lk (Copy b) j = lk b j"
    by simp_all
  with main wfa wfb have "\<forall>a'\<in>{a, Copy a}. \<forall>b'\<in>{b, Copy b}.
                 \<exists>c'. ResetAndMergeFrom c a' b' = Some (Inr c')
                   \<and> Lookup a' j = Inr (or_vals ps1 j) \<and> Lookup b' j = Inr (or_vals ps2 j)
                   \<and> Lookup c' j = Inr (or_vals ps1 j OR or_vals ps2 j)"
    by simp
  with a b show ?thesis by blast
qed

theorem C3_reset_and_merge_is_or_witness:
  "\<exists>a b c'. Appends NewAccumulationBlock [(1, 4)] = Inr a
      \<and> Appends NewAccumulationBlock [(1, 2), (3, 1)] = Inr b
      \<and> ResetAndMergeFrom NewAccumulationBlock a b = Some (Inr c')
      \<and> Lookup a 1 = Inr 4 \<and> Lookup b 1 = Inr 2 \<and> Lookup c' 1 = Inr 6"
proof -
  have nf: "\<not> Frozen NewAccumulationBlock" "length (Values NewAccumulationBlock) = BLOCK_FULL_LENGTH"
    by (simp_all add: NewAccumulationBlock_def)
  from C3_reset_and_merge_is_or[of "[(1, 4)]" "[(1, 2), (3, 1)]" NewAccumulationBlock 1, OF _ _ _ _ nf]
  show ?thesis by fastforce
qed

text \<open>
  C4. For every MultiBlock \<open>m\<close> that a run of appends to a new MultiBlock returns,
  \<open>pushCurrent\<close> and then \<open>unPushCurrent\<close> both return, and the resulting MultiBlock looks up
  the same value as \<open>m\<close> for every id.
\<close>
theorem C4_push_unpush_roundtrip:
  assumes "MB_Appends NewMultiBlock ps = Inr m"
  shows "\<exists>m1 m2. pushCurrent m = Inr m1 \<and> unPushCurrent m1 = Inr m2
           \<and> (\<forall>j. MB_Lookup m2 j = MB_Lookup m j)"
proof -
  from MB_Appends_Inr[OF mb_inv_New assms] have inv: "mb_inv m" .
  from push_unPush[OF inv] obtain m1 m2 where
    p: "pushCurrent m = Inr m1" "unPushCurrent m1 = Inr m2" and inv2: "mb_inv m2"
    and l: "\<forall>j. mlk m2 j = mlk m j" by (elim exE conjE)
  have "MB_Lookup m2 j = MB_Lookup m j" for j
    using mb_Lookup[OF inv, of j] mb_Lookup[OF inv2, of j] l by simp
  with p show ?thesis by blast
qed

theorem C4_push_unpush_roundtrip_witness:
  "\<exists>m m1 m2. MB_Appends NewMultiBlock [(10, 1), (70000, 2)] = Inr m
      \<and> pushCurrent m = Inr m1 \<and> unPushCurrent m1 = Inr m2
      \<and> MB_Lookup m2 10 = MB_Lookup m 10"
proof -
  have "\<forall>(i, v)\<in>set [(10, 1), (70000, 2)]. LastId NewMultiBlock \<le> i \<and> v \<le> (0xFFFF :: uint32)"
    by (simp add: NewMultiBlock_def)
  from MB_Appends_step[OF mb_inv_New _ this] obtain m where
    a: "MB_Appends NewMultiBlock [(10, 1), (70000, 2)] = Inr m" by auto
  from C4_push_unpush_roundtrip[OF a] a show ?thesis by blast
qed

text \<open>
  C5, as the spec states it, fails when \<open>i\<close> equals \<open>lastId\<close> and a value is pending under it:
  the MultiBlock that the append \<open>(5, 4)\<close> to a new MultiBlock returns has \<open>lastId = 5\<close>, and
  after the appends \<open>(5, 1)\<close> and \<open>(5, 2)\<close> the lookup of 5 returns 7, not \<open>1 | 2 = 3\<close>.
\<close>

theorem C5_pending_value_is_kept:
  "(case MB_Appends NewMultiBlock [(5, 4)] of Inl e \<Rightarrow> None | Inr m \<Rightarrow> Some (LastId m)) = Some 5
   \<and> mb_lookup_after [(5, 4), (5, 1), (5, 2)] 5 = Inr 7
   \<and> mb_lookup_after [(5, 4), (5, 1), (5, 2)] 5 \<noteq> Inr (1 OR 2)"
proof -
  have "sorted (map fst [(5 :: int, 4 :: uint32)])"
    "\<forall>(i, v)\<in>set [(5 :: int, 4 :: uint32)]. LastId NewMultiBlock \<le> i \<and> v \<le> 0xFFFF"
    by (simp_all add: NewMultiBlock_def)
  from MB_Appends_step[OF mb_inv_New this] obtain m where
    "MB_Appends NewMultiBlock [(5, 4)] = Inr m" "LastId m = 5" by auto
  then have a: "(case MB_Appends NewMultiBlock [(5, 4)] of Inl e \<Rightarrow> None
                  | Inr m \<Rightarrow> Some (LastId m)) = Some 5"
    by simp
  have "mb_lookup_after [(5, 4), (5, 1), (5, 2)] 5
          = Inr (or_vals [(5, 4), (5, 1), (5, 2)] (5 :: int))"
    by (rule mb_lookup_after_eq) simp_all
  then have "mb_lookup_after [(5, 4), (5, 1), (5, 2)] 5 = Inr 7" by simp
  with a show ?thesis by simp
qed

text \<open>
  C5, amended. Let \<open>m\<close> be a MultiBlock built from \<open>NewMultiBlock\<close> by appends and merges that
  returned, \<open>i \<ge> lastId\<close> and \<open>v1, v2 < 2^16\<close>. The lookup of \<open>i\<close> in \<open>m\<close> returns a value \<open>w\<close>,
  which is 0 when \<open>i > lastId\<close> and the pending \<open>lastVal\<close> when \<open>i = lastId\<close>. Appending
  \<open>(i, v1)\<close> and then \<open>(i, v2)\<close> returns, and the lookup of \<open>i\<close> then returns \<open>w | v1 | v2\<close>
  (so \<open>v1 | v2\<close> when \<open>i > lastId\<close>); any further appends \<open>qs\<close> with non-decreasing ids
  larger than \<open>i\<close> and values below \<open>2^16\<close> return as well, and the lookup of \<open>i\<close> still
  returns \<open>w | v1 | v2\<close>.
\<close>
theorem C5_version_collapse:
  assumes "reachable m" "LastId m \<le> i" "v1 \<le> BLOCK_VAL_MASK" "v2 \<le> BLOCK_VAL_MASK"
    and "sorted (map fst qs)" "\<forall>(k, v)\<in>set qs. i < k \<and> v \<le> BLOCK_VAL_MASK"
  shows "\<exists>w m' m''. MB_Lookup m i = Inr w
           \<and> (LastId m < i \<longrightarrow> w = 0) \<and> (i = LastId m \<longrightarrow> w = LastVal m)
           \<and> MB_Appends m [(i, v1), (i, v2)] = Inr m'
           \<and> MB_Lookup m' i = Inr (w OR v1 OR v2)
           \<and> MB_Appends m' qs = Inr m''
           \<and> MB_Lookup m'' i = Inr (w OR v1 OR v2)"
proof -
  from reachable_inv[OF assms(1)] have inv: "mb_inv m" .
  have s1: "sorted (map fst [(i, v1), (i, v2)])" by simp
  have b1: "\<forall>(k, v)\<in>set [(i, v1), (i, v2)]. LastId m \<le> k \<and> v \<le> 0xFFFF"
    using assms(2,3,4) by simp
  from MB_Appends_step[OF inv s1 b1] obtain m' where
    a1: "MB_Appends m [(i, v1), (i, v2)] = Inr m'" and inv': "mb_inv m'"
    and L': "LastId m' = i"
    and l1: "\<forall>j. mlk m' j = mlk m j OR or_vals [(i, v1), (i, v2)] j" by auto
  have b2: "\<forall>(k, v)\<in>set qs. LastId m' \<le> k \<and> v \<le> 0xFFFF"
    using assms(6) L' by auto
  from MB_Appends_step[OF inv' assms(5) b2] obtain m'' where
    a2: "MB_Appends m' qs = Inr m''" and inv'': "mb_inv m''"
    and l2: "\<forall>j. mlk m'' j = mlk m' j OR or_vals qs j" by (elim exE conjE)
  have "i \<notin> fst ` set qs" using assms(6) by auto
  then have z: "or_vals qs i = 0" by (rule or_vals_notin)
  have e1: "mlk m' i = mlk m i OR v1 OR v2" using l1 by simp
  have e2: "mlk m'' i = mlk m i OR v1 OR v2" using l2 e1 z by simp
  have w0: "LastId m < i \<longrightarrow> mlk m i = 0" using mlk_above[OF inv] by simp
  have w1: "i = LastId m \<longrightarrow> mlk m i = LastVal m" by (simp add: mlk_def)
  from mb_Lookup[OF inv, of i] mb_Lookup[OF inv', of i] mb_Lookup[OF inv'', of i] e1 e2 w0 w1 a1 a2
  show ?thesis by simp
qed

theorem C5_version_collapse_witness:
  "\<exists>m' m''. MB_Lookup NewMultiBlock 7 = Inr 0
      \<and> MB_Appends NewMultiBlock [(7, 1), (7, 2)] = Inr m' \<and> MB_Lookup m' 7 = Inr 3
      \<and> MB_Appends m' [(9, 4)] = Inr m'' \<and> MB_Lookup m'' 7 = Inr 3"
proof -
  have h: "LastId NewMultiBlock \<le> 7" "(1 :: uint32) \<le> BLOCK_VAL_MASK" "(2 :: uint32) \<le> BLOCK_VAL_MASK"
    "sorted (map fst [(9 :: int, 4 :: uint32)])"
    "\<forall>(k, v)\<in>set [(9 :: int, 4 :: uint32)]. 7 < k \<and> v \<le> BLOCK_VAL_MASK"
    by (simp_all add: NewMultiBlock_def)
  have l: "LastId NewMultiBlock < 7" by (simp add: NewMultiBlock_def)
  from C5_version_collapse[OF reachable.new h] l show ?thesis by auto
qed

text \<open>
  C6, as the spec states it, fails: in the scenario S5 the mask of the way is 3 and the
  mask of node 11 is 2, so \<open>putWay\<close> records \<open>3 & ^2 = 1\<close> for node 11 in the extra-nodes map.
  The map does have an entry for node 11.
\<close>
theorem C6_extra_nodes_holds_11: "S5_extra 11 = Inr (Some 1)"
proof -
  from S5_worker_eq obtain nodes ways where
    e: "S5_worker = Inr \<lparr>Ways = ways, ExtraNodes = [(10, 2), (11, 1), (12, 2)], Id = 0, Nodes = nodes\<rparr>"
    by (elim exE conjE)
  show ?thesis by (simp add: S5_extra_def e)
qed

text \<open>
  C6, amended. In the scenario S5 (the global nodes MultiBlock holds \<open>10 \<rightarrow> 1\<close>, \<open>11 \<rightarrow> 2\<close>,
  \<open>12 \<rightarrow> 1\<close>; the way 100 has the refs \<open>[10, 11, 12]\<close>) \<open>putWay\<close> returns, \<open>Ways\<close> then holds
  \<open>100 \<rightarrow> 3\<close>, and the extra-nodes map holds \<open>10 \<rightarrow> 2\<close>, \<open>11 \<rightarrow> 1\<close> and \<open>12 \<rightarrow> 2\<close>.
\<close>
theorem C6_way_scenario: "S5_way 100 = Inr 3 \<and> S5_extra 10 = Inr (Some 2) \<and> S5_extra 11 = Inr (Some 1) \<and> S5_extra 12 = Inr (Some 2)"
proof -
  from S5_worker_eq obtain nodes ways where
    e: "S5_worker = Inr \<lparr>Ways = ways, ExtraNodes = [(10, 2), (11, 1), (12, 2)], Id = 0, Nodes = nodes\<rparr>"
    and l: "MB_Lookup ways 100 = Inr 3"
    by (elim exE conjE)
  show ?thesis by (simp add: S5_extra_def S5_way_def e l)
qed

text \<open>
  C8. A new MultiBlock has no block in its map, so all of them are frozen. If every block
  in the map of \<open>m\<close> is frozen, then so is every block in the map of the MultiBlock that
  \<open>Append\<close>, \<open>pushCurrent\<close> or \<open>unPushCurrent\<close> returns, and of both MultiBlocks that \<open>Merge\<close>
  returns when the blocks in the map of the peer are frozen too (\<open>Lookup\<close> only reads). Every block found in the map
  is frozen, what \<open>Copy\<close> returns is frozen, and every method that writes to the length or
  the values of a block (\<open>Append\<close>, \<open>Reset\<close>, \<open>UnAppend\<close>, \<open>CopyFrom\<close>, \<open>ResetAndMergeFrom\<close>)
  panics on a frozen receiver before it writes.
\<close>
theorem C8_map_blocks_stay_frozen:
  assumes "all_frozen m"
  shows "all_frozen NewMultiBlock
     \<and> (\<forall>i v m'. MB_Append m i v = Inr m' \<longrightarrow> all_frozen m')
     \<and> (\<forall>m'. pushCurrent m = Inr m' \<longrightarrow> all_frozen m')
     \<and> (\<forall>m'. unPushCurrent m = Inr m' \<longrightarrow> all_frozen m')
     \<and> (\<forall>order m2 m' d. all_frozen m2 \<longrightarrow> Merge order m m2 = Some (Inr (m', d))
           \<longrightarrow> all_frozen m' \<and> all_frozen d)
     \<and> (\<forall>k b. map_of (Blocks m) k = Some b \<longrightarrow>
           Frozen b \<and> Frozen (Copy b)
           \<and> (\<forall>i v b1 b2. (\<exists>e. Append b i v = Inl e) \<and> Reset b = Inl FrozenBlock
                 \<and> UnAppend b = Inl FrozenBlock \<and> CopyFrom b b2 = Inl FrozenBlock
                 \<and> ResetAndMergeFrom b b1 b2 = Some (Inl FrozenBlock)))"
proof -
  have n: "all_frozen NewMultiBlock" by (simp add: all_frozen_def NewMultiBlock_def)
  have f: "Frozen b" if "map_of (Blocks m) k = Some b" for k b
    using assms map_of_SomeD[OF that] by (auto simp: all_frozen_def)
  from n MB_Append_frozen[OF assms] pushCurrent_frozen[OF assms] unPushCurrent_frozen[OF assms]
    Merge_frozen[OF assms] f frozen_panics Copy_Frozen
  show ?thesis by blast
qed

theorem C8_map_blocks_stay_frozen_witness:
  "\<exists>m'. MB_Append NewMultiBlock 70000 1 = Inr m' \<and> all_frozen m'"
proof -
  have n: "all_frozen NewMultiBlock" by (simp add: all_frozen_def NewMultiBlock_def)
  have "LastId NewMultiBlock \<le> 70000" "(1 :: uint32) \<le> 0xFFFF" by (simp_all add: NewMultiBlock_def)
  from MB_Append_step[OF mb_inv_New this] obtain m' where
    a: "MB_Append NewMultiBlock 70000 1 = Inr m'" by (elim exE conjE)
  with C8_map_blocks_stay_frozen[OF n] show ?thesis by blast
qed

end
